theory Spec2Isabelle
  imports Main "HOL-Library.Sublist" "HOL-Library.Word"
begin

section \<open>Kirimase: the helpers of the add command (src/commands/add/utils.ts)\<close>

text \<open>
  The module holds three small components: the layout patcher
  (\<open>addContextProviderToLayout\<close>), the two install aggregators
  (\<open>addToInstallList\<close> / \<open>installPackagesFromList\<close> and
  \<open>addToShadcnComponentList\<close> / \<open>installShadcnComponentList\<close>) and the summary
  reporter (\<open>printNextSteps\<close>).  The documents of the patcher and the texts of the
  reporter are modelled as \<open>string\<close> (lists of characters): every operation these two
  components use is a function on lists that compares elements only.  The one operation
  of the module that looks inside a string is \<open>trim\<close> in the install aggregator, whose
  white space lies partly outside Latin-1; the package names are therefore lists of
  UTF-16 code units, as the runtime has them.
\<close>

subsection \<open>String operations of the JavaScript runtime\<close>

text \<open>The position of the first occurrence of \<open>pat\<close> in \<open>s\<close>, if any.\<close>

primrec first_occ :: "'a list \<Rightarrow> 'a list \<Rightarrow> nat option" where
  "first_occ pat [] = (if pat = [] then Some 0 else None)"
| "first_occ pat (c # cs) =
     (if prefix pat (c # cs) then Some 0 else map_option Suc (first_occ pat cs))"

text \<open>The position of the last occurrence of \<open>pat\<close> in \<open>s\<close>, if any.\<close>

primrec last_occ :: "'a list \<Rightarrow> 'a list \<Rightarrow> nat option" where
  "last_occ pat [] = (if pat = [] then Some 0 else None)"
| "last_occ pat (c # cs) =
     (case last_occ pat cs of
        Some i \<Rightarrow> Some (Suc i)
      | None \<Rightarrow> if prefix pat (c # cs) then Some 0 else None)"

text \<open>\<open>String.prototype.indexOf(pat, from)\<close>: the start is clamped to \<open>[0, length]\<close>,
  the answer is \<open>-1\<close> when there is no occurrence at or after it.\<close>

definition js_indexOf :: "'a list \<Rightarrow> 'a list \<Rightarrow> int \<Rightarrow> int" where
  "js_indexOf s pat from =
     (let k = nat (min (max from 0) (int (length s)))
      in case first_occ pat (drop k s) of
           None \<Rightarrow> - 1
         | Some i \<Rightarrow> int (k + i))"

text \<open>\<open>String.prototype.lastIndexOf(pat)\<close>.\<close>

definition js_lastIndexOf :: "'a list \<Rightarrow> 'a list \<Rightarrow> int" where
  "js_lastIndexOf s pat = (case last_occ pat s of None \<Rightarrow> - 1 | Some i \<Rightarrow> int i)"

text \<open>\<open>String.prototype.slice(start, end)\<close>: a negative index counts from the end,
  both are clamped to the string.\<close>

definition js_clamp_index :: "nat \<Rightarrow> int \<Rightarrow> nat" where
  "js_clamp_index len i = (if i < 0 then nat (max (int len + i) 0) else min (nat i) len)"

definition js_slice :: "'a list \<Rightarrow> int \<Rightarrow> int \<Rightarrow> 'a list" where
  "js_slice s start end =
     (let a = js_clamp_index (length s) start; b = js_clamp_index (length s) end
      in take (b - a) (drop a s))"

definition js_slice_from :: "'a list \<Rightarrow> int \<Rightarrow> 'a list" where
  "js_slice_from s start = drop (js_clamp_index (length s) start) s"

text \<open>\<open>String.prototype.includes(pat)\<close>.\<close>

definition js_includes :: "'a list \<Rightarrow> 'a list \<Rightarrow> bool" where
  "js_includes s pat = (first_occ pat s \<noteq> None)"

text \<open>\<open>String.prototype.replace(pat, rep)\<close> with a string pattern replaces the first
  occurrence only.  The runtime expands \<open>$\<close>-patterns of the replacement; every
  replacement this module builds is free of \<open>$\<close> (lemma \<open>replacementText_no_dollar\<close>), so
  the replacement is inserted literally.\<close>

definition js_replace :: "'a list \<Rightarrow> 'a list \<Rightarrow> 'a list \<Rightarrow> 'a list" where
  "js_replace s pat rep =
     (case first_occ pat s of
        None \<Rightarrow> s
      | Some i \<Rightarrow> take i s @ rep @ drop (i + length pat) s)"

text \<open>A JavaScript string is a sequence of UTF-16 code units; an ASCII literal of the
  source has one code unit per character.\<close>

type_synonym code_unit = "16 word"

type_synonym js_string = "code_unit list"

definition utf16 :: "string \<Rightarrow> js_string" where
  "utf16 s = map of_char s"

text \<open>\<open>String.prototype.trim()\<close> strips the WhiteSpace and LineTerminator code points
  of ECMAScript from both ends: TAB, VT, FF, SP, NBSP, ZWNBSP (U+FEFF), the other space
  separators of Unicode (U+1680, U+2000 to U+200A, U+202F, U+205F, U+3000), and LF, CR,
  LS (U+2028), PS (U+2029).  Each is a single code unit.\<close>

definition js_whitespace :: "code_unit \<Rightarrow> bool" where
  "js_whitespace c =
     (c \<in> {0x0009, 0x000A, 0x000B, 0x000C, 0x000D, 0x0020, 0x00A0, 0x1680,
             0x2000, 0x2001, 0x2002, 0x2003, 0x2004, 0x2005, 0x2006, 0x2007, 0x2008,
             0x2009, 0x200A, 0x2028, 0x2029, 0x202F, 0x205F, 0x3000, 0xFEFF})"

definition js_trim :: "js_string \<Rightarrow> js_string" where
  "js_trim s = rev (dropWhile js_whitespace (rev (dropWhile js_whitespace s)))"

text \<open>\<open>Array.prototype.join(sep)\<close>.\<close>

fun js_join :: "'a list \<Rightarrow> 'a list list \<Rightarrow> 'a list" where
  "js_join sep [] = []"
| "js_join sep [x] = x"
| "js_join sep (x # y # ys) = x @ sep @ js_join sep (y # ys)"

text \<open>\<open>[...new Set(xs)]\<close>: the set keeps the first insertion of every value and
  iterates in insertion order.\<close>

definition js_set_add :: "'a list \<Rightarrow> 'a \<Rightarrow> 'a list" where
  "js_set_add acc x = (if x \<in> set acc then acc else acc @ [x])"

definition js_set_spread :: "'a list \<Rightarrow> 'a list" where
  "js_set_spread xs = foldl js_set_add [] xs"

subsection \<open>The layout patcher\<close>

text \<open>The closed set of provider names \<open>addContextProviderToLayout\<close> accepts.\<close>

datatype provider =
  NextAuthProvider | TrpcProvider | ShadcnToast | ClerkProvider | Navbar | ThemeProvider

fun provider_name :: "provider \<Rightarrow> string" where
  "provider_name NextAuthProvider = ''NextAuthProvider''"
| "provider_name TrpcProvider = ''TrpcProvider''"
| "provider_name ShadcnToast = ''ShadcnToast''"
| "provider_name ClerkProvider = ''ClerkProvider''"
| "provider_name Navbar = ''Navbar''"
| "provider_name ThemeProvider = ''ThemeProvider''"

text \<open>
  What the patcher obtains from its collaborators: \<open>readConfigFile()\<close> gives
  \<open>hasSrc\<close>, \<open>alias\<close> and \<open>preferredPackageManager\<close>; \<open>getFilePaths()\<close> and
  \<open>formatFilePath(_, {prefix: "alias", removeExtension: true})\<close> give the four import
  paths.  Both live outside this module, so their results are parameters.
\<close>

record config =
  hasSrc :: bool
  "alias" :: string
  preferredPackageManager :: "string option"
  authProviderComponent :: string
  trpcProvider :: string
  navbarComponent :: string
  sidebarComponent :: string

text \<open>The file system as the patcher sees it, with the log of the calls of
  \<open>replaceFile\<close>.\<close>

record fs_state =
  files :: "string \<rightharpoonup> string"
  writes :: "(string \<times> string) list"

datatype fs_error = ENOENT string

text \<open>Modelled from the spec: \<open>replaceFile(path, content)\<close> of \<open>src/utils.ts\<close> is not
  part of this module; the final document is written back to the same path.\<close>

definition replaceFile :: "string \<Rightarrow> string \<Rightarrow> fs_state \<Rightarrow> fs_state" where
  "replaceFile path content s =
     s\<lparr>files := (files s)(path \<mapsto> content), writes := writes s @ [(path, content)]\<rparr>"

definition layout_path :: "config \<Rightarrow> string" where
  "layout_path cfg = (if hasSrc cfg then ''src/'' else '''') @ ''app/layout.tsx''"

definition importInsertionPoint :: "string \<Rightarrow> int" where
  "importInsertionPoint fileContent = js_lastIndexOf fileContent ''import''"

definition nextLineAfterLastImport :: "string \<Rightarrow> int" where
  "nextLineAfterLastImport fileContent =
     js_indexOf fileContent ''\<newline>'' (importInsertionPoint fileContent) + 1"

definition beforeImport :: "string \<Rightarrow> string" where
  "beforeImport fileContent = js_slice fileContent 0 (nextLineAfterLastImport fileContent)"

definition afterImport :: "string \<Rightarrow> string" where
  "afterImport fileContent = js_slice_from fileContent (nextLineAfterLastImport fileContent)"

fun importStatement :: "config \<Rightarrow> provider \<Rightarrow> string" where
  \<open>importStatement cfg NextAuthProvider =
     ''import NextAuthProvider from "'' @ authProviderComponent cfg @ ''";''\<close>
| \<open>importStatement cfg TrpcProvider =
     ''import TrpcProvider from "'' @ trpcProvider cfg
       @ ''";\<newline>import { cookies } from "next/headers";''\<close>
| \<open>importStatement cfg ShadcnToast =
     ''import { Toaster } from "'' @ alias cfg @ ''/components/ui/toaster";''\<close>
| \<open>importStatement cfg ClerkProvider =
     ''import { ClerkProvider } from "@clerk/nextjs";''\<close>
| \<open>importStatement cfg Navbar =
     ''import Navbar from "'' @ navbarComponent cfg
       @ ''";\<newline>import Sidebar from "'' @ sidebarComponent cfg @ ''";''\<close>
| \<open>importStatement cfg ThemeProvider =
     ''import { ThemeProvider } from "'' @ alias cfg @ ''/components/ThemeProvider";''\<close>

definition modifiedImportContent :: "config \<Rightarrow> provider \<Rightarrow> string \<Rightarrow> string" where
  "modifiedImportContent cfg p fileContent =
     beforeImport fileContent @ importStatement cfg p @ ''\<newline>'' @ afterImport fileContent"

definition navbarExists :: "string \<Rightarrow> bool" where
  "navbarExists fileContent = js_includes fileContent ''<Navbar />''"

definition children_anchor :: string where
  "children_anchor = ''{children}''"

definition navigation_block :: string where
  \<open>navigation_block =
     ''<div className="flex">\<newline><Sidebar />\<newline><main className="flex-1 md:p-8 pt-2 p-8">\<newline><Navbar />\<newline>{children}\<newline></main>\<newline></div>''\<close>

definition rootChildrenText :: "bool \<Rightarrow> string" where
  "rootChildrenText nav = (if \<not> nav then children_anchor else navigation_block)"

fun replacementText :: "provider \<Rightarrow> string \<Rightarrow> string" where
  \<open>replacementText ShadcnToast rct = rct @ ''\<newline><Toaster />\<newline>''\<close>
| \<open>replacementText Navbar rct = navigation_block\<close>
| \<open>replacementText ThemeProvider rct =
     ''\<newline><'' @ provider_name ThemeProvider
       @ '' attribute="class" defaultTheme="system" enableSystem disableTransitionOnChange>''
       @ rct @ ''</'' @ provider_name ThemeProvider @ ''>\<newline>''\<close>
| \<open>replacementText TrpcProvider rct =
     ''\<newline><'' @ provider_name TrpcProvider @ '' cookies={cookies().toString()}>''
       @ rct @ ''</'' @ provider_name TrpcProvider @ ''>\<newline>''\<close>
| \<open>replacementText p rct =
     ''\<newline><'' @ provider_name p @ ''>'' @ rct @ ''</'' @ provider_name p @ ''>\<newline>''\<close>

definition searchValue :: "bool \<Rightarrow> string" where
  "searchValue nav = (if \<not> nav then children_anchor else navigation_block)"

definition newLayoutContent :: "config \<Rightarrow> provider \<Rightarrow> string \<Rightarrow> string" where
  "newLayoutContent cfg p fileContent =
     js_replace (modifiedImportContent cfg p fileContent)
       (searchValue (navbarExists fileContent))
       (replacementText p (rootChildrenText (navbarExists fileContent)))"

text \<open>\<open>fs.readFileSync\<close> throws when the file is missing; the early \<open>return\<close> of the
  import check leaves the state as it is; otherwise the new document is written.\<close>

definition addContextProviderToLayout ::
  "config \<Rightarrow> provider \<Rightarrow> fs_state \<Rightarrow> fs_error + fs_state" where
  "addContextProviderToLayout cfg p s =
     (case files s (layout_path cfg) of
        None \<Rightarrow> Inl (ENOENT (layout_path cfg))
      | Some fileContent \<Rightarrow>
          if js_includes fileContent (importStatement cfg p) then Inr s
          else Inr (replaceFile (layout_path cfg) (newLayoutContent cfg p fileContent) s))"

text \<open>Two applications in a row; the second one runs only when the first returned.\<close>

definition apply_then ::
  "(fs_state \<Rightarrow> fs_error + fs_state) \<Rightarrow> (fs_state \<Rightarrow> fs_error + fs_state)
     \<Rightarrow> fs_state \<Rightarrow> fs_error + fs_state" where
  "apply_then f g s = (case f s of Inl e \<Rightarrow> Inl e | Inr s' \<Rightarrow> g s')"

subsection \<open>The install aggregators\<close>

text \<open>The two module-level lists, together with what the module's collaborators
  observe: the argument of every call of \<open>installPackages\<close> and of
  \<open>installShadcnUIComponents\<close> (both outside this module) and the spinner's text.\<close>

record install_list =
  regular :: "js_string list"
  dev :: "js_string list"

text \<open>The object \<open>{regular: string, dev: string}\<close> handed to \<open>installPackages\<close>, as a
  pair in that order.\<close>

type_synonym install_list_formatted = "js_string \<times> js_string"

record installer_state =
  installList :: install_list
  shadCnComponentList :: "string list"
  installPackages_calls :: "(install_list_formatted \<times> string option) list"
  installShadcnUIComponents_calls :: "string list list"
  spinner_text :: string

definition addToInstallList :: "install_list \<Rightarrow> installer_state \<Rightarrow> installer_state" where
  "addToInstallList packages st =
     st\<lparr>installList :=
          \<lparr>regular = regular (installList st) @ regular packages,
           dev = dev (installList st) @ dev packages\<rparr>\<rparr>"

definition dedupedList :: "install_list \<Rightarrow> install_list" where
  "dedupedList l = \<lparr>regular = js_set_spread (regular l), dev = js_set_spread (dev l)\<rparr>"

definition formattedInstallList :: "install_list \<Rightarrow> install_list_formatted" where
  "formattedInstallList l =
     (js_trim (js_join (utf16 '' '') (map js_trim (regular (dedupedList l)))),
      js_trim (js_join (utf16 '' '') (map js_trim (dev (dedupedList l)))))"

definition installPackagesFromList :: "config \<Rightarrow> installer_state \<Rightarrow> installer_state" where
  "installPackagesFromList cfg st =
     (if length (dev (installList st)) = 0 \<and> length (regular (installList st)) = 0 then st
      else st\<lparr>spinner_text := ''Installing Packages'',
               installPackages_calls := installPackages_calls st
                 @ [(formattedInstallList (installList st), preferredPackageManager cfg)]\<rparr>)"

definition addToShadcnComponentList :: "string list \<Rightarrow> installer_state \<Rightarrow> installer_state" where
  "addToShadcnComponentList components st =
     st\<lparr>shadCnComponentList := shadCnComponentList st @ components\<rparr>"

definition installShadcnComponentList :: "installer_state \<Rightarrow> installer_state" where
  "installShadcnComponentList st =
     (if length (shadCnComponentList st) = 0 then st
      else st\<lparr>spinner_text := ''Installing ShadcnUI Components'',
               installShadcnUIComponents_calls :=
                 installShadcnUIComponents_calls st @ [shadCnComponentList st]\<rparr>)"

text \<open>The state of a fresh process, and a run of pushes.\<close>

definition initial_state :: installer_state where
  "initial_state =
     \<lparr>installList = \<lparr>regular = [], dev = []\<rparr>, shadCnComponentList = [],
      installPackages_calls = [], installShadcnUIComponents_calls = [], spinner_text = []\<rparr>"

definition push_all :: "install_list list \<Rightarrow> installer_state \<Rightarrow> installer_state" where
  "push_all ps st = foldl (\<lambda>s p. addToInstallList p s) st ps"

text \<open>The position of the first occurrence of an element.\<close>

definition first_index :: "'a list \<Rightarrow> 'a \<Rightarrow> nat" where
  "first_index xs x = length (takeWhile (\<lambda>y. y \<noteq> x) xs)"

subsection \<open>The summary reporter\<close>

text \<open>The values of the \<open>Packages\<close> table.\<close>

datatype orm_package = drizzle | prisma
datatype auth_package = next_auth | clerk | lucia | kinde
datatype misc_package = trpc | stripe | resend
datatype component_lib_package = shadcn_ui

text \<open>The fields of \<open>InitOptions\<close> that \<open>printNextSteps\<close> reads.  The function tests
  \<open>orm\<close>, \<open>auth\<close> and \<open>authProviders\<close> for a value, so they may be absent; \<open>db\<close>
  and \<open>dbProvider\<close> are only compared and printed.\<close>

record InitOptions =
  orm :: "orm_package option"
  db :: "string option"
  dbProvider :: "string option"
  auth :: "auth_package option"
  authProviders :: "string list option"
  miscPackages :: "misc_package list"
  componentLib :: "component_lib_package option"

text \<open>The value of the property read \<open>AuthProviders[provider]\<close>.  The table is an
  object of \<open>auth/next-auth/utils\<close>, outside this module: the read answers
  \<open>undefined\<close> for a name that is neither a key of the table nor a member it inherits
  (such as \<open>toString\<close>), and otherwise a value, of which the reporter reads the property
  \<open>website\<close>; that property is a text for an entry of the table and absent for an
  inherited member.\<close>

datatype table_value = Undefined | Value "string option"

text \<open>What the reporter takes from outside the module: the configuration file (which
  may be missing), \<open>chalk.underline\<close>, and the reads of the \<open>AuthProviders\<close> table.\<close>

record reporter_env =
  readConfigFile :: "config option"
  underline :: "string \<Rightarrow> string"
  AuthProviders :: "string \<Rightarrow> table_value"

datatype js_error = TypeError

text \<open>The arguments of the final call of \<open>showNextSteps\<close>, which only formats them.\<close>

record next_steps =
  installed :: "string list"
  steps :: "string list"
  "notes" :: "string list"
  duration :: int

text \<open>A template literal prints an absent value as \<open>undefined\<close>.\<close>

definition template_string :: "string option \<Rightarrow> string" where
  "template_string v = (case v of None \<Rightarrow> ''undefined'' | Some s \<Rightarrow> s)"

definition ppm :: "reporter_env \<Rightarrow> string" where
  "ppm env =
     (case readConfigFile env of
        None \<Rightarrow> ''npm''
      | Some cfg \<Rightarrow> (case preferredPackageManager cfg of None \<Rightarrow> ''npm'' | Some pm \<Rightarrow> pm))"

text \<open>\<open>xs.map(f)\<close> where \<open>f\<close> may throw: the first exception ends the loop.\<close>

fun map_throwing :: "('a \<Rightarrow> 'e + 'b) \<Rightarrow> 'a list \<Rightarrow> 'e + 'b list" where
  "map_throwing f [] = Inr []"
| "map_throwing f (x # xs) =
     (case f x of
        Inl e \<Rightarrow> Inl e
      | Inr y \<Rightarrow> (case map_throwing f xs of Inl e \<Rightarrow> Inl e | Inr ys \<Rightarrow> Inr (y # ys)))"

text \<open>The label of Auth.js calls \<open>map\<close> on \<open>authProviders\<close> without a test.\<close>

definition nextAuthLabel :: "reporter_env \<Rightarrow> InitOptions \<Rightarrow> js_error + string list" where
  "nextAuthLabel env r =
     (if auth r = Some next_auth then
        (case authProviders r of
           None \<Rightarrow> Inl TypeError
         | Some ps \<Rightarrow>
             Inr [underline env ''Authentication'' @ '': Auth.js (with ''
                    @ js_join '', '' (map (\<lambda>p. p) ps) @ '' providers)''])
      else Inr [])"

definition packagesInstalledList :: "reporter_env \<Rightarrow> InitOptions \<Rightarrow> js_error + string list" where
  "packagesInstalledList env r =
     (case nextAuthLabel env r of
        Inl e \<Rightarrow> Inl e
      | Inr nextAuth \<Rightarrow>
          Inr ((if orm r = Some drizzle
                then [underline env ''ORM'' @ '': Drizzle (using ''
                        @ template_string (dbProvider r) @ '')'']
                else [])
             @ (if orm r = Some prisma then [underline env ''ORM'' @ '': Prisma''] else [])
             @ nextAuth
             @ (if auth r = Some clerk then [underline env ''Authentication'' @ '': Clerk'']
                else [])
             @ (if auth r = Some lucia then [underline env ''Authentication'' @ '': Lucia'']
                else [])
             @ (if auth r = Some kinde then [underline env ''Authentication'' @ '': Kinde'']
                else [])
             @ (if stripe \<in> set (miscPackages r) then [underline env ''Payments'' @ '': Stripe'']
                else [])
             @ (if resend \<in> set (miscPackages r) then [underline env ''Email'' @ '': Resend'']
                else [])
             @ (if trpc \<in> set (miscPackages r) then [underline env ''RPC'' @ '': tRPC'']
                else [])
             @ (if componentLib r = Some shadcn_ui
                then [underline env ''Component Library'' @ '': ShadcnUI'']
                else [])))"

definition wouldHaveSecrets :: "InitOptions \<Rightarrow> bool" where
  "wouldHaveSecrets r =
     (orm r \<noteq> None \<or> auth r \<noteq> None \<or> resend \<in> set (miscPackages r)
        \<or> stripe \<in> set (miscPackages r))"

definition dbMigration :: "reporter_env \<Rightarrow> InitOptions \<Rightarrow> string list" where
  "dbMigration env r =
     [''Run '' @ [CHR 0x27] @ ppm env @ '' run db:generate'' @ [CHR 0x27],
      ''Run '' @ [CHR 0x27] @ ppm env @ '' run db:''
        @ (if db r = Some ''pg'' then ''migrate'' else ''push'') @ [CHR 0x27],
      ''Run '' @ [CHR 0x27] @ ppm env @ '' run dev'' @ [CHR 0x27],
      ''Open localhost:3000/ in your browser'']"

definition runMigration :: "InitOptions \<Rightarrow> bool" where
  "runMigration r =
     (orm r \<noteq> None \<or> auth r = Some lucia \<or> auth r = Some next_auth
        \<or> stripe \<in> set (miscPackages r))"

definition nextSteps :: "reporter_env \<Rightarrow> InitOptions \<Rightarrow> string list" where
  "nextSteps env r =
     (if wouldHaveSecrets r then [''Add Environment Variables to your .env''] else [])
     @ (if runMigration r then dbMigration env r else [])
     @ [''Build something awesome!'']"

text \<open>\<open>AuthProviders[provider].website\<close> throws when the read of the table answers
  \<open>undefined\<close>; the template literal prints an absent \<open>website\<close> as \<open>undefined\<close>.\<close>

definition authProviderInstruction :: "reporter_env \<Rightarrow> string \<Rightarrow> js_error + string" where
  "authProviderInstruction env provider =
     (case AuthProviders env provider of
        Undefined \<Rightarrow> Inl TypeError
      | Value website \<Rightarrow>
          Inr (provider @ '' auth: create credentials at '' @ template_string website
                 @ ''\<newline>  (redirect URI: /api/auth/callback/'' @ provider @ '')''))"

definition authProviderInstructions :: "reporter_env \<Rightarrow> InitOptions \<Rightarrow> js_error + string list" where
  "authProviderInstructions env r =
     (case authProviders r of
        None \<Rightarrow> Inr []
      | Some ps \<Rightarrow>
          if length ps > 0 then map_throwing (authProviderInstruction env) ps else Inr [])"

definition issue_note :: string where
  "issue_note =
     ''If you had any problems, please open an issue on GitHub\<newline>  (https://github.com/nicoalbanese/kirimase/issues)''"

definition printNextSteps :: "reporter_env \<Rightarrow> InitOptions \<Rightarrow> int \<Rightarrow> js_error + next_steps" where
  "printNextSteps env promptResponses dur =
     (case packagesInstalledList env promptResponses of
        Inl e \<Rightarrow> Inl e
      | Inr pkgs \<Rightarrow>
          (case authProviderInstructions env promptResponses of
             Inl e \<Rightarrow> Inl e
           | Inr instr \<Rightarrow>
               Inr \<lparr>installed = pkgs, steps = nextSteps env promptResponses,
                    notes = instr @ [issue_note], duration = dur\<rparr>))"

subsection \<open>Occurrences, and the concrete inputs of the examples\<close>

text \<open>\<open>pat\<close> occurs in \<open>s\<close> at position \<open>i\<close>.\<close>

definition occurs_at :: "'a list \<Rightarrow> 'a list \<Rightarrow> nat \<Rightarrow> bool" where
  "occurs_at pat s i = (i \<le> length s \<and> prefix pat (drop i s))"

text \<open>A configuration as the set-up of a project with a \<open>src\<close> directory writes it.\<close>

definition example_config :: config where
  \<open>example_config =
     \<lparr>hasSrc = True, alias = ''@'', preferredPackageManager = Some ''npm'',
      authProviderComponent = ''@/lib/auth/Provider'', trpcProvider = ''@/lib/trpc/Provider'',
      navbarComponent = ''@/components/Navbar'', sidebarComponent = ''@/components/Sidebar''\<rparr>\<close>

text \<open>A file system that holds the layout file only, and nothing written yet.\<close>

definition fs_with :: "config \<Rightarrow> string \<Rightarrow> fs_state" where
  "fs_with cfg doc = \<lparr>files = [layout_path cfg \<mapsto> doc], writes = []\<rparr>"

definition clerk_layout :: string where
  \<open>clerk_layout =
     ''import "./globals.css";\<newline>import { ClerkProvider } from "@clerk/nextjs";\<newline><body>\<newline><ClerkProvider>{children}</ClerkProvider>\<newline></body>\<newline>''\<close>

text \<open>The first line of a document with its line break; empty when the document has
  no line break.\<close>

definition first_line :: "string \<Rightarrow> string" where
  "first_line c =
     (if CHR 0x0A \<in> set c then takeWhile (\<lambda>x. x \<noteq> CHR 0x0A) c @ ''\<newline>'' else [])"

definition bare_layout :: string where
  \<open>bare_layout = ''<body>{children}</body>\<newline>''\<close>

definition bare_layout_patched :: string where
  \<open>bare_layout_patched =
     ''<body>\<newline><ClerkProvider>{children}</ClerkProvider>\<newline></body>\<newline>import { ClerkProvider } from "@clerk/nextjs";\<newline>''\<close>

definition empty_body_layout :: string where
  \<open>empty_body_layout = ''import "./globals.css";\<newline><body></body>\<newline>''\<close>

definition empty_body_layout_patched :: string where
  \<open>empty_body_layout_patched =
     ''import "./globals.css";\<newline>import { ClerkProvider } from "@clerk/nextjs";\<newline><body></body>\<newline>''\<close>

text \<open>The words of an argument string: its maximal runs without blank, as the command
  line of the package manager separates them.\<close>

primrec split_at :: "'a \<Rightarrow> 'a list \<Rightarrow> 'a list list" where
  "split_at sep [] = [[]]"
| "split_at sep (c # cs) =
     (if c = sep then [] # split_at sep cs
      else (case split_at sep cs of [] \<Rightarrow> [[c]] | w # ws \<Rightarrow> (c # w) # ws))"

definition words_of :: "js_string \<Rightarrow> js_string list" where
  "words_of s = filter (\<lambda>w. w \<noteq> []) (split_at 0x20 s)"

text \<open>A plain name: not empty, and free of white space.\<close>

definition plain_name :: "js_string \<Rightarrow> bool" where
  "plain_name x = (x \<noteq> [] \<and> list_all (\<lambda>c. \<not> js_whitespace c) x)"

text \<open>Two pushes as feature installers make them.\<close>

definition example_pushes :: "install_list list" where
  "example_pushes =
     [\<lparr>regular = [utf16 ''zod'', utf16 ''drizzle-orm''], dev = [utf16 ''drizzle-kit'']\<rparr>,
      \<lparr>regular = [utf16 ''zod'', utf16 ''pg''],
       dev = [utf16 ''drizzle-kit'', utf16 ''@types/pg'']\<rparr>]"

text \<open>An environment of the reporter with styling switched off, and the selections of
  the summary example: as the specification lists them (no \<open>db\<close> field), and with the
  database engine set.\<close>

definition example_reporter_env :: reporter_env where
  "example_reporter_env =
     \<lparr>readConfigFile = Some example_config, underline = (\<lambda>s. s),
      AuthProviders =
        (\<lambda>p. if p = ''google''
             then Value (Some ''https://console.cloud.google.com/apis/credentials'')
             else Undefined)\<rparr>"

definition spec_selections :: InitOptions where
  "spec_selections =
     \<lparr>orm = Some drizzle, db = None, dbProvider = Some ''pg'', auth = Some next_auth,
      authProviders = Some [''google''], miscPackages = [trpc], componentLib = Some shadcn_ui\<rparr>"

definition pg_selections :: InitOptions where
  "pg_selections = spec_selections\<lparr>db := Some ''pg''\<rparr>"

text \<open>Auth.js selected, and nothing else: no list of providers.\<close>

definition no_providers_selections :: InitOptions where
  "no_providers_selections =
     \<lparr>orm = None, db = None, dbProvider = None, auth = Some next_auth,
      authProviders = None, miscPackages = [], componentLib = None\<rparr>"

text \<open>The characters an import path is expected to be free of, and the configurations
  whose alias and import paths are free of them.\<close>

definition path_ok :: "string \<Rightarrow> bool" where
  "path_ok P = (set P \<inter> {CHR 0x0A, CHR '' '', CHR ''<'', CHR ''>'', CHR ''{'', CHR ''}''} = {})"

definition config_ok :: "config \<Rightarrow> bool" where
  "config_ok cfg =
     (path_ok (alias cfg) \<and> path_ok (authProviderComponent cfg) \<and> path_ok (trpcProvider cfg)
      \<and> path_ok (navbarComponent cfg) \<and> path_ok (sidebarComponent cfg))"

text \<open>No occurrence of \<open>pat\<close> in \<open>X @ R @ Y\<close> overlaps the part \<open>R\<close>.\<close>

definition no_touch :: "'a list \<Rightarrow> 'a list \<Rightarrow> 'a list \<Rightarrow> 'a list \<Rightarrow> bool" where
  "no_touch pat X R Y =
     (\<forall>q. occurs_at pat (X @ R @ Y) q \<longrightarrow> q + length pat \<le> length X \<or> length X + length R \<le> q)"


definition plain_layout :: string where
  \<open>plain_layout = ''import "./globals.css";\<newline><body>{children}</body>\<newline>''\<close>

definition plain_layout_clerk :: string where
  \<open>plain_layout_clerk =
     ''import "./globals.css";\<newline>import { ClerkProvider } from "@clerk/nextjs";\<newline><body>\<newline><ClerkProvider>{children}</ClerkProvider>\<newline></body>\<newline>''\<close>

text \<open>Counting the occurrences of a pattern.\<close>

definition at_most_once :: "'a list \<Rightarrow> 'a list \<Rightarrow> bool" where
  "at_most_once pat s = (\<forall>i j. occurs_at pat s i \<longrightarrow> occurs_at pat s j \<longrightarrow> i = j)"

definition count_occ :: "'a list \<Rightarrow> 'a list \<Rightarrow> nat" where
  "count_occ pat s = length (filter (occurs_at pat s) [0..<Suc (length s)])"

text \<open>The first eleven characters of the first and of the second line of the import
  statements, and what the proofs use of an import statement: it starts with one of
  the former and ends with a semicolon, each of its line breaks is followed by one of the
  latter, the word import (with its blank) occurs only at the start of a line, and
  its last line holds that word.\<close>

definition first_line_heads :: "string list" where
  "first_line_heads =
     [''import Next'', ''import Trpc'', ''import { To'', ''import { Cl'', ''import Navb'',
      ''import { Th'']"

definition second_line_heads :: "string list" where
  "second_line_heads = [''import { co'', ''import Side'']"

definition import_like :: "string \<Rightarrow> bool" where
  "import_like s =
     (11 \<le> length s \<and> take 11 s \<in> set first_line_heads \<and> last s = CHR '';''
      \<and> (\<forall>k<length s. s ! k = CHR 0x0A \<longrightarrow>
             Suc k + 11 \<le> length s \<and> take 11 (drop (Suc k) s) \<in> set second_line_heads)
      \<and> (\<forall>j. occurs_at ''import '' s j \<longrightarrow> j = 0 \<or> s ! (j - 1) = CHR 0x0A)
      \<and> (\<exists>t. occurs_at ''import'' s t \<and> CHR 0x0A \<notin> set (drop t s)))"

text \<open>Exactly one occurrence.\<close>

definition once :: "'a list \<Rightarrow> 'a list \<Rightarrow> bool" where
  "once pat s = ((\<exists>i. occurs_at pat s i) \<and> at_most_once pat s)"

text \<open>The providers whose replacement wraps the anchor in an element of their own.\<close>

definition wrapping :: "provider \<Rightarrow> bool" where
  "wrapping p = (p \<noteq> ShadcnToast \<and> p \<noteq> Navbar)"

text \<open>The text a wrapping provider puts between the two line breaks of its wrapper,
  before and after the text it wraps.\<close>

fun wrapper_open :: "provider \<Rightarrow> string" where
  \<open>wrapper_open ThemeProvider =
     ''<ThemeProvider attribute="class" defaultTheme="system" enableSystem disableTransitionOnChange>''\<close>
| \<open>wrapper_open TrpcProvider = ''<TrpcProvider cookies={cookies().toString()}>''\<close>
| \<open>wrapper_open p = ''<'' @ provider_name p @ ''>''\<close>

definition wrapper_close :: "provider \<Rightarrow> string" where
  "wrapper_close p = ''</'' @ provider_name p @ ''>''"

definition plain_layout_nextauth :: string where
  \<open>plain_layout_nextauth =
     ''import "./globals.css";\<newline>import NextAuthProvider from "@/lib/auth/Provider";\<newline><body>\<newline><NextAuthProvider>{children}</NextAuthProvider>\<newline></body>\<newline>''\<close>

definition plain_layout_nested :: string where
  \<open>plain_layout_nested =
     ''import "./globals.css";\<newline>import NextAuthProvider from "@/lib/auth/Provider";\<newline>import { ClerkProvider } from "@clerk/nextjs";\<newline><body>\<newline><NextAuthProvider>\<newline><ClerkProvider>{children}</ClerkProvider>\<newline></NextAuthProvider>\<newline></body>\<newline>''\<close>

text \<open>A layout that imports Clerk's provider without using it.\<close>

definition clerk_import_layout :: string where
  \<open>clerk_import_layout =
     ''import { ClerkProvider } from "@clerk/nextjs";\<newline><body>{children}</body>\<newline>''\<close>

definition clerk_import_layout_nextauth :: string where
  \<open>clerk_import_layout_nextauth =
     ''import { ClerkProvider } from "@clerk/nextjs";\<newline>import NextAuthProvider from "@/lib/auth/Provider";\<newline><body>\<newline><NextAuthProvider>{children}</NextAuthProvider>\<newline></body>\<newline>''\<close>

text \<open>The plain layout after the navigation provider, and after the theme provider on
  top of it.\<close>

definition plain_layout_navbar :: string where
  \<open>plain_layout_navbar =
     ''import "./globals.css";\<newline>import Navbar from "@/components/Navbar";\<newline>import Sidebar from "@/components/Sidebar";\<newline><body><div className="flex">\<newline><Sidebar />\<newline><main className="flex-1 md:p-8 pt-2 p-8">\<newline><Navbar />\<newline>{children}\<newline></main>\<newline></div></body>\<newline>''\<close>

definition plain_layout_navbar_theme :: string where
  \<open>plain_layout_navbar_theme =
     ''import "./globals.css";\<newline>import Navbar from "@/components/Navbar";\<newline>import Sidebar from "@/components/Sidebar";\<newline>import { ThemeProvider } from "@/components/ThemeProvider";\<newline><body>\<newline><ThemeProvider attribute="class" defaultTheme="system" enableSystem disableTransitionOnChange><div className="flex">\<newline><Sidebar />\<newline><main className="flex-1 md:p-8 pt-2 p-8">\<newline><Navbar />\<newline>{children}\<newline></main>\<newline></div></ThemeProvider>\<newline></body>\<newline>''\<close>

text \<open>What a provider other than the navigation provider puts before and behind the
  navigation block when the block is its anchor: a wrapping provider its opening and
  closing tag, between two line breaks; the toast provider nothing before the block,
  and its own element behind it.\<close>

definition block_pre :: "provider \<Rightarrow> string" where
  "block_pre p = (if p = ShadcnToast then [] else CHR 0x0A # wrapper_open p)"

definition block_post :: "provider \<Rightarrow> string" where
  \<open>block_post p =
     (if p = ShadcnToast then ''\<newline><Toaster />\<newline>'' else wrapper_close p @ [CHR 0x0A])\<close>

text \<open>Provider \<open>p\<close>, applied to the document \<open>d\<close>, searches for the navigation block;
  the document with the import inserted holds the navigation marker once, hence one
  navigation block; and the result is that document with the two texts of \<open>p\<close> put
  before and behind the block, which stays whole.\<close>

definition wraps_block :: "config \<Rightarrow> provider \<Rightarrow> string \<Rightarrow> bool" where
  "wraps_block cfg p d =
     (let M = modifiedImportContent cfg p d in
      searchValue (navbarExists d) = navigation_block
      \<and> count_occ ''<Navbar />'' M = 1
      \<and> (case first_occ navigation_block M of
            None \<Rightarrow> False
          | Some i \<Rightarrow>
              newLayoutContent cfg p d
                = take i M @ block_pre p @ navigation_block @ block_post p
                    @ drop (i + length navigation_block) M))"

text \<open>The same for a run of providers, each applied to the document the one before it
  has written.\<close>

fun wraps_block_each :: "config \<Rightarrow> provider list \<Rightarrow> string \<Rightarrow> bool" where
  "wraps_block_each cfg [] d = True"
| "wraps_block_each cfg (p # ps) d =
     (wraps_block cfg p d \<and> wraps_block_each cfg ps (newLayoutContent cfg p d))"

text \<open>A run of applications; the documents it computes one after the other; and the
  writes of these documents.\<close>

fun apply_all :: "config \<Rightarrow> provider list \<Rightarrow> fs_state \<Rightarrow> fs_error + fs_state" where
  "apply_all cfg [] s = Inr s"
| "apply_all cfg (p # ps) s =
     apply_then (addContextProviderToLayout cfg p) (apply_all cfg ps) s"

fun layouts_after :: "config \<Rightarrow> provider list \<Rightarrow> string \<Rightarrow> string list" where
  "layouts_after cfg [] d = []"
| "layouts_after cfg (p # ps) d =
     newLayoutContent cfg p d # layouts_after cfg ps (newLayoutContent cfg p d)"

fun write_all :: "string \<Rightarrow> string list \<Rightarrow> fs_state \<Rightarrow> fs_state" where
  "write_all path [] s = s"
| "write_all path (d # ds) s = write_all path ds (replaceFile path d s)"

text \<open>The shape of a document once the navigation provider has been applied: the last
  text \<open>import\<close> of the document lies in an import statement that a line break follows,
  the navigation marker occurs in one navigation block only, and that block lies before
  that import statement or behind its line break.\<close>

definition block_inv :: "string \<Rightarrow> bool" where
  "block_inv D =
     (\<exists>U imp W X Y. D = U @ imp @ CHR 0x0A # W \<and> import_like imp
        \<and> (\<forall>q. \<not> occurs_at ''import'' W q)
        \<and> D = X @ navigation_block @ Y
        \<and> (\<forall>q. \<not> occurs_at ''<Navbar />'' X q) \<and> (\<forall>q. \<not> occurs_at ''<Navbar />'' Y q)
        \<and> (length X + length navigation_block \<le> length U
            \<or> length U + length imp + 1 \<le> length X))"

text \<open>The plain layout with the navigation block after the theme provider and the toast
  provider, and after Clerk's provider on top of them.\<close>

definition plain_layout_navbar_theme_toast :: string where
  \<open>plain_layout_navbar_theme_toast =
     ''import "./globals.css";\<newline>import Navbar from "@/components/Navbar";\<newline>import Sidebar from "@/components/Sidebar";\<newline>import { ThemeProvider } from "@/components/ThemeProvider";\<newline>import { Toaster } from "@/components/ui/toaster";\<newline><body>\<newline><ThemeProvider attribute="class" defaultTheme="system" enableSystem disableTransitionOnChange><div className="flex">\<newline><Sidebar />\<newline><main className="flex-1 md:p-8 pt-2 p-8">\<newline><Navbar />\<newline>{children}\<newline></main>\<newline></div>\<newline><Toaster />\<newline></ThemeProvider>\<newline></body>\<newline>''\<close>

definition plain_layout_navbar_theme_toast_clerk :: string where
  \<open>plain_layout_navbar_theme_toast_clerk =
     ''import "./globals.css";\<newline>import Navbar from "@/components/Navbar";\<newline>import Sidebar from "@/components/Sidebar";\<newline>import { ThemeProvider } from "@/components/ThemeProvider";\<newline>import { Toaster } from "@/components/ui/toaster";\<newline>import { ClerkProvider } from "@clerk/nextjs";\<newline><body>\<newline><ThemeProvider attribute="class" defaultTheme="system" enableSystem disableTransitionOnChange>\<newline><ClerkProvider><div className="flex">\<newline><Sidebar />\<newline><main className="flex-1 md:p-8 pt-2 p-8">\<newline><Navbar />\<newline>{children}\<newline></main>\<newline></div></ClerkProvider>\<newline>\<newline><Toaster />\<newline></ThemeProvider>\<newline></body>\<newline>''\<close>

text \<open>The plain layout with the navigation block after the toast provider alone.\<close>

definition plain_layout_navbar_toast :: string where
  \<open>plain_layout_navbar_toast =
     ''import "./globals.css";\<newline>import Navbar from "@/components/Navbar";\<newline>import Sidebar from "@/components/Sidebar";\<newline>import { Toaster } from "@/components/ui/toaster";\<newline><body><div className="flex">\<newline><Sidebar />\<newline><main className="flex-1 md:p-8 pt-2 p-8">\<newline><Navbar />\<newline>{children}\<newline></main>\<newline></div>\<newline><Toaster />\<newline></body>\<newline>''\<close>

text \<open>A layout on one line: no line break follows its import.  After the navigation
  provider, and after Clerk's provider on top of it.\<close>

definition one_line_layout :: string where
  \<open>one_line_layout = ''import "./globals.css";<body>{children}</body>''\<close>

definition one_line_layout_navbar :: string where
  \<open>one_line_layout_navbar =
     ''import Navbar from "@/components/Navbar";\<newline>import Sidebar from "@/components/Sidebar";\<newline>import "./globals.css";<body><div className="flex">\<newline><Sidebar />\<newline><main className="flex-1 md:p-8 pt-2 p-8">\<newline><Navbar />\<newline>{children}\<newline></main>\<newline></div></body>''\<close>

definition one_line_layout_navbar_clerk :: string where
  \<open>one_line_layout_navbar_clerk =
     ''import Navbar from "@/components/Navbar";\<newline>import Sidebar from "@/components/Sidebar";\<newline>import "./globals.css";<body><div className="flex">\<newline>import { ClerkProvider } from "@clerk/nextjs";\<newline><Sidebar />\<newline><main className="flex-1 md:p-8 pt-2 p-8">\<newline><Navbar />\<newline>{children}\<newline></main>\<newline></div></body>''\<close>

section \<open>Properties\<close>

subsection \<open>Searching a string\<close>

lemma occurs_at_Cons_Suc: "occurs_at pat (c # cs) (Suc j) = occurs_at pat cs j"
  by (simp add: occurs_at_def)

lemma occurs_at_Cons_0: "occurs_at pat (c # cs) 0 = prefix pat (c # cs)"
  by (simp add: occurs_at_def)

lemma no_occurrence_Cons:
  "(\<forall>i. \<not> occurs_at pat (c # cs) i) \<longleftrightarrow>
     \<not> prefix pat (c # cs) \<and> (\<forall>i. \<not> occurs_at pat cs i)"
proof
  assume a: "\<forall>i. \<not> occurs_at pat (c # cs) i"
  have "\<not> prefix pat (c # cs)"
    using a[rule_format, of 0] by (simp add: occurs_at_Cons_0)
  moreover have "\<not> occurs_at pat cs i" for i
    using a[rule_format, of "Suc i"] by (simp add: occurs_at_Cons_Suc)
  ultimately show "\<not> prefix pat (c # cs) \<and> (\<forall>i. \<not> occurs_at pat cs i)" by blast
next
  assume a: "\<not> prefix pat (c # cs) \<and> (\<forall>i. \<not> occurs_at pat cs i)"
  show "\<forall>i. \<not> occurs_at pat (c # cs) i"
  proof
    fix i show "\<not> occurs_at pat (c # cs) i"
      using a by (cases i) (auto simp: occurs_at_Cons_0 occurs_at_Cons_Suc)
  qed
qed

lemma first_occ_None_iff: "first_occ pat s = None \<longleftrightarrow> (\<forall>i. \<not> occurs_at pat s i)"
proof (induction s)
  case Nil
  then show ?case by (auto simp: occurs_at_def)
next
  case (Cons c cs)
  then show ?case by (auto simp: no_occurrence_Cons)
qed

lemma first_occ_Some_iff:
  "first_occ pat s = Some i \<longleftrightarrow> occurs_at pat s i \<and> (\<forall>j<i. \<not> occurs_at pat s j)"
proof (induction s arbitrary: i)
  case Nil
  then show ?case by (auto simp: occurs_at_def)
next
  case (Cons c cs)
  show ?case
  proof (cases "prefix pat (c # cs)")
    case True
    then have "occurs_at pat (c # cs) 0" by (simp add: occurs_at_Cons_0)
    with True show ?thesis by (cases i) auto
  next
    case False
    then have n0: "\<not> occurs_at pat (c # cs) 0" by (simp add: occurs_at_Cons_0)
    show ?thesis
    proof (cases i)
      case 0
      with False n0 show ?thesis by auto
    next
      case (Suc k)
      have "(\<forall>j<Suc k. \<not> occurs_at pat (c # cs) j) \<longleftrightarrow> (\<forall>j<k. \<not> occurs_at pat cs j)"
      proof
        assume a: "\<forall>j<Suc k. \<not> occurs_at pat (c # cs) j"
        show "\<forall>j<k. \<not> occurs_at pat cs j"
        proof (intro allI impI)
          fix j assume "j < k"
          then show "\<not> occurs_at pat cs j"
            using a[rule_format, of "Suc j"] by (simp add: occurs_at_Cons_Suc)
        qed
      next
        assume a: "\<forall>j<k. \<not> occurs_at pat cs j"
        show "\<forall>j<Suc k. \<not> occurs_at pat (c # cs) j"
        proof (intro allI impI)
          fix j assume "j < Suc k"
          then show "\<not> occurs_at pat (c # cs) j"
            using a n0 by (cases j) (auto simp: occurs_at_Cons_Suc)
        qed
      qed
      with False Suc Cons.IH[of k] show ?thesis by (auto simp: occurs_at_Cons_Suc)
    qed
  qed
qed

lemma js_includes_iff: "js_includes s pat \<longleftrightarrow> (\<exists>i. occurs_at pat s i)"
  by (simp add: js_includes_def first_occ_None_iff)

lemma last_occ_None_iff: "last_occ pat s = None \<longleftrightarrow> (\<forall>i. \<not> occurs_at pat s i)"
proof (induction s)
  case Nil
  then show ?case by (auto simp: occurs_at_def)
next
  case (Cons c cs)
  then show ?case by (auto simp: no_occurrence_Cons split: option.splits)
qed

lemma last_occ_Some_iff:
  "last_occ pat s = Some i \<longleftrightarrow> occurs_at pat s i \<and> (\<forall>j>i. \<not> occurs_at pat s j)"
proof (induction s arbitrary: i)
  case Nil
  then show ?case by (auto simp: occurs_at_def)
next
  case (Cons c cs)
  show ?case
  proof (cases "last_occ pat cs")
    case None
    then have no: "\<not> occurs_at pat cs j" for j by (simp add: last_occ_None_iff)
    have no': "\<not> occurs_at pat (c # cs) j" if "j > 0" for j
      using that no by (cases j) (auto simp: occurs_at_Cons_Suc)
    show ?thesis
    proof (cases i)
      case 0
      with None no' show ?thesis by (auto simp: occurs_at_Cons_0)
    next
      case (Suc k)
      with None no show ?thesis by (auto simp: occurs_at_Cons_Suc)
    qed
  next
    case (Some k)
    then have k: "occurs_at pat cs k" "\<forall>j>k. \<not> occurs_at pat cs j"
      using Cons.IH[of k] by auto
    have kk: "\<not> occurs_at pat (c # cs) j" if "j > Suc k" for j
      using that k(2) by (cases j) (auto simp: occurs_at_Cons_Suc)
    show ?thesis
    proof
      assume "last_occ pat (c # cs) = Some i"
      with Some have "i = Suc k" by simp
      with k kk show "occurs_at pat (c # cs) i \<and> (\<forall>j>i. \<not> occurs_at pat (c # cs) j)"
        by (auto simp: occurs_at_Cons_Suc)
    next
      assume a: "occurs_at pat (c # cs) i \<and> (\<forall>j>i. \<not> occurs_at pat (c # cs) j)"
      have "occurs_at pat (c # cs) (Suc k)" using k(1) by (simp add: occurs_at_Cons_Suc)
      with a have "\<not> Suc k > i" by blast
      moreover have "\<not> i > Suc k" using a kk by blast
      ultimately have "i = Suc k" by simp
      with Some show "last_occ pat (c # cs) = Some i" by simp
    qed
  qed
qed

subsection \<open>The layout patcher: a provider that is already there\<close>

text \<open>
  C10.  When the layout file already contains the provider's import statement,
  \<open>addContextProviderToLayout\<close> returns at once: the state it returns is the state it
  was given, so the file keeps its content and the log of \<open>replaceFile\<close> calls gets no
  entry (not even a rewrite of the same content).
\<close>

theorem import_present_no_write:
  assumes "files s (layout_path cfg) = Some fileContent"
    and "js_includes fileContent (importStatement cfg p)"
  shows "addContextProviderToLayout cfg p s = Inr s"
  using assms by (simp add: addContextProviderToLayout_def)

theorem import_present_no_write_witness:
  "files (fs_with example_config clerk_layout) (layout_path example_config) = Some clerk_layout
   \<and> js_includes clerk_layout (importStatement example_config ClerkProvider)
   \<and> addContextProviderToLayout example_config ClerkProvider (fs_with example_config clerk_layout)
       = Inr (fs_with example_config clerk_layout)
   \<and> writes (fs_with example_config clerk_layout) = []"
proof -
  have f: "files (fs_with example_config clerk_layout) (layout_path example_config)
             = Some clerk_layout"
    by (simp add: fs_with_def)
  have i: "js_includes clerk_layout (importStatement example_config ClerkProvider)"
    by (simp add: clerk_layout_def js_includes_def)
  show ?thesis
    using f i import_present_no_write [OF f i] by (simp add: fs_with_def)
qed

subsection \<open>The layout patcher: where the import goes\<close>

lemma occurs_at_prefix_trans:
  "prefix q pat \<Longrightarrow> occurs_at pat s i \<Longrightarrow> occurs_at q s i"
  by (auto simp: occurs_at_def)

lemma js_includes_prefix:
  "prefix q pat \<Longrightarrow> js_includes s pat \<Longrightarrow> js_includes s q"
  by (auto simp: js_includes_iff intro: occurs_at_prefix_trans)

lemma importStatement_prefix: "prefix ''import '' (importStatement cfg p)"
  by (cases p) simp_all

lemma importStatement_prefix_import: "prefix ''import'' (importStatement cfg p)"
  by (cases p) simp_all

lemma first_occ_single:
  "first_occ [x] s = (if x \<in> set s then Some (length (takeWhile (\<lambda>y. y \<noteq> x) s)) else None)"
  by (induction s) auto

lemma first_occ_bound:
  assumes "first_occ pat s = Some i" shows "i + length pat \<le> length s"
proof -
  from assms have "i \<le> length s" "prefix pat (drop i s)"
    by (auto simp: first_occ_Some_iff occurs_at_def)
  then have "length pat \<le> length s - i" by (auto dest: prefix_length_le)
  with \<open>i \<le> length s\<close> show ?thesis by simp
qed

lemma nextLine_range:
  "0 \<le> nextLineAfterLastImport c \<and> nextLineAfterLastImport c \<le> int (length c)"
proof -
  define k where "k = nat (min (max (importInsertionPoint c) 0) (int (length c)))"
  have k: "k \<le> length c" by (simp add: k_def)
  show ?thesis
  proof (cases "first_occ ''\<newline>'' (drop k c)")
    case None
    then show ?thesis
      by (simp add: nextLineAfterLastImport_def js_indexOf_def k_def[symmetric])
  next
    case (Some i)
    from first_occ_bound[OF Some] k have "k + i + 1 \<le> length c" by simp
    with Some show ?thesis
      by (simp add: nextLineAfterLastImport_def js_indexOf_def k_def[symmetric])
  qed
qed

lemma nextLine_nat_le: "nat (nextLineAfterLastImport c) \<le> length c"
  using nextLine_range[of c] by linarith

lemma beforeImport_take: "beforeImport c = take (nat (nextLineAfterLastImport c)) c"
  using nextLine_range[of c] nextLine_nat_le[of c]
  by (simp add: beforeImport_def js_slice_def js_clamp_index_def min_absorb1)

lemma afterImport_drop: "afterImport c = drop (nat (nextLineAfterLastImport c)) c"
  using nextLine_range[of c] nextLine_nat_le[of c]
  by (simp add: afterImport_def js_slice_from_def js_clamp_index_def min_absorb1)

lemma before_after: "beforeImport c @ afterImport c = c"
  by (simp add: beforeImport_take afterImport_drop)

lemma nextLine_no_import:
  assumes "\<not> js_includes c ''import''"
  shows "nat (nextLineAfterLastImport c) = length (first_line c)"
proof -
  from assms have "last_occ ''import'' c = None"
    by (simp add: js_includes_iff last_occ_None_iff)
  then have "importInsertionPoint c = - 1"
    by (simp add: importInsertionPoint_def js_lastIndexOf_def)
  then have "nextLineAfterLastImport c = int (length (first_line c))"
    by (simp add: nextLineAfterLastImport_def js_indexOf_def first_occ_single first_line_def)
  then show ?thesis by simp
qed

lemma beforeImport_no_import:
  assumes "\<not> js_includes c ''import''"
  shows "beforeImport c = first_line c"
proof -
  have "take (length (first_line c)) c = first_line c"
  proof (cases "CHR 0x0A \<in> set c")
    case True
    then obtain ys zs where c: "c = ys @ CHR 0x0A # zs" "CHR 0x0A \<notin> set ys"
      by (auto dest: split_list_first)
    then have "takeWhile (\<lambda>x. x \<noteq> CHR 0x0A) c = ys"
      by (auto simp: takeWhile_tail takeWhile_eq_all_conv)
    with c True show ?thesis by (simp add: first_line_def)
  next
    case False
    then show ?thesis by (simp add: first_line_def)
  qed
  with assms show ?thesis by (simp add: beforeImport_take nextLine_no_import)
qed

lemma empty_body_modified:
  "modifiedImportContent example_config ClerkProvider empty_body_layout
     = empty_body_layout_patched"
  unfolding empty_body_layout_def empty_body_layout_patched_def by code_simp

lemma empty_body_facts:
  "\<not> js_includes empty_body_layout (importStatement example_config ClerkProvider)"
  "\<not> js_includes empty_body_layout_patched (searchValue (navbarExists empty_body_layout))"
  "\<not> js_includes empty_body_layout_patched children_anchor"
  unfolding empty_body_layout_def empty_body_layout_patched_def by code_simp+

lemma bare_layout_no_import: "\<not> js_includes bare_layout ''import''"
  unfolding bare_layout_def by code_simp

text \<open>
  C4 (as the code has it).  The patcher has no error for a missing anchor.  When the
  document with the import inserted does not contain the anchor it searches for,
  \<open>replace\<close> finds nothing: the patcher returns normally and writes the document with
  the import inserted and the body as it was.
\<close>

theorem missing_anchor_leaves_body:
  assumes "files s (layout_path cfg) = Some c"
    and "\<not> js_includes c (importStatement cfg p)"
    and "\<not> js_includes (modifiedImportContent cfg p c) (searchValue (navbarExists c))"
  shows "addContextProviderToLayout cfg p s
           = Inr (replaceFile (layout_path cfg) (modifiedImportContent cfg p c) s)"
  using assms
  by (simp add: addContextProviderToLayout_def newLayoutContent_def js_replace_def
      js_includes_def)

theorem missing_anchor_leaves_body_witness:
  "files (fs_with example_config empty_body_layout) (layout_path example_config)
     = Some empty_body_layout
   \<and> \<not> js_includes empty_body_layout (importStatement example_config ClerkProvider)
   \<and> \<not> js_includes (modifiedImportContent example_config ClerkProvider empty_body_layout)
         (searchValue (navbarExists empty_body_layout))
   \<and> addContextProviderToLayout example_config ClerkProvider
        (fs_with example_config empty_body_layout)
       = Inr (replaceFile (layout_path example_config) empty_body_layout_patched
               (fs_with example_config empty_body_layout))"
proof -
  have f: "files (fs_with example_config empty_body_layout) (layout_path example_config)
             = Some empty_body_layout"
    by (simp add: fs_with_def)
  have a: "\<not> js_includes (modifiedImportContent example_config ClerkProvider empty_body_layout)
         (searchValue (navbarExists empty_body_layout))"
    by (simp add: empty_body_modified empty_body_facts)
  show ?thesis
    using f a empty_body_facts(1) missing_anchor_leaves_body [OF f empty_body_facts(1) a]
    by (simp add: empty_body_modified)
qed

text \<open>The claim as the specification words it fails: a layout without the placeholder
  is patched without any error, and the file is written with the body unchanged.\<close>

theorem missing_anchor_counterexample:
  "\<not> js_includes empty_body_layout_patched children_anchor
   \<and> addContextProviderToLayout example_config ClerkProvider
        (fs_with example_config empty_body_layout)
       = Inr (replaceFile (layout_path example_config) empty_body_layout_patched
               (fs_with example_config empty_body_layout))"
proof -
  have "newLayoutContent example_config ClerkProvider empty_body_layout
          = empty_body_layout_patched"
    unfolding empty_body_layout_def empty_body_layout_patched_def by code_simp
  then show ?thesis
    using empty_body_facts by (simp add: addContextProviderToLayout_def fs_with_def)
qed

text \<open>
  C5 (as the code has it).  The patcher has no error for a document without import.  It
  looks for the text \<open>import\<close>, not for a statement: when that text occurs nowhere in
  the document, \<open>lastIndexOf\<close> answers \<open>-1\<close>, \<open>indexOf\<close> then searches from the start,
  so the import is inserted after the first line of the document (at its very start when
  the document has no line break), and the patcher goes on to patch the body and to
  write the file.
\<close>

theorem no_import_inserts_after_first_line:
  assumes "files s (layout_path cfg) = Some c"
    and "\<not> js_includes c ''import''"
  shows "addContextProviderToLayout cfg p s
           = Inr (replaceFile (layout_path cfg)
                    (js_replace
                       (first_line c @ importStatement cfg p @ ''\<newline>''
                          @ drop (length (first_line c)) c)
                       (searchValue (navbarExists c))
                       (replacementText p (rootChildrenText (navbarExists c))))
                    s)"
proof -
  from assms(2) have "\<not> js_includes c (importStatement cfg p)"
    using js_includes_prefix[OF importStatement_prefix_import] by blast
  moreover have "modifiedImportContent cfg p c
      = first_line c @ importStatement cfg p @ ''\<newline>'' @ drop (length (first_line c)) c"
    using assms(2)
    by (simp add: modifiedImportContent_def beforeImport_no_import afterImport_drop
        nextLine_no_import)
  ultimately show ?thesis
    using assms(1) by (simp add: addContextProviderToLayout_def newLayoutContent_def)
qed

theorem no_import_inserts_after_first_line_witness:
  "files (fs_with example_config bare_layout) (layout_path example_config) = Some bare_layout
   \<and> \<not> js_includes bare_layout ''import''
   \<and> addContextProviderToLayout example_config ClerkProvider (fs_with example_config bare_layout)
       = Inr (replaceFile (layout_path example_config) bare_layout_patched
                (fs_with example_config bare_layout))"
proof -
  have f: "files (fs_with example_config bare_layout) (layout_path example_config)
             = Some bare_layout"
    by (simp add: fs_with_def)
  have e: "js_replace
             (first_line bare_layout @ importStatement example_config ClerkProvider @ ''\<newline>''
                @ drop (length (first_line bare_layout)) bare_layout)
             (searchValue (navbarExists bare_layout))
             (replacementText ClerkProvider (rootChildrenText (navbarExists bare_layout)))
           = bare_layout_patched"
    unfolding bare_layout_def bare_layout_patched_def by code_simp
  show ?thesis
    using f bare_layout_no_import
      no_import_inserts_after_first_line [OF f bare_layout_no_import, of ClerkProvider,
        unfolded e]
    by simp
qed

text \<open>The claim as the specification words it fails: a layout that holds the text
  \<open>import\<close> nowhere, hence no import statement, is patched without any error.\<close>

theorem no_import_counterexample:
  "\<not> js_includes bare_layout ''import''
   \<and> addContextProviderToLayout example_config ClerkProvider (fs_with example_config bare_layout)
       = Inr (replaceFile (layout_path example_config) bare_layout_patched
                (fs_with example_config bare_layout))"
proof -
  have "newLayoutContent example_config ClerkProvider bare_layout = bare_layout_patched"
    unfolding bare_layout_def bare_layout_patched_def by code_simp
  moreover have "\<not> js_includes bare_layout (importStatement example_config ClerkProvider)"
    unfolding bare_layout_def by code_simp
  ultimately show ?thesis
    using bare_layout_no_import by (simp add: addContextProviderToLayout_def fs_with_def)
qed

subsection \<open>The install aggregators\<close>

lemma js_set_spread_snoc: "js_set_spread (xs @ [x]) = js_set_add (js_set_spread xs) x"
  by (simp add: js_set_spread_def)

lemma js_set_spread_Nil: "js_set_spread [] = []"
  by (simp add: js_set_spread_def)

lemma set_js_set_spread: "set (js_set_spread xs) = set xs"
  by (induction xs rule: rev_induct) (auto simp: js_set_spread_snoc js_set_spread_Nil js_set_add_def)

lemma distinct_js_set_spread: "distinct (js_set_spread xs)"
  by (induction xs rule: rev_induct)
    (auto simp: js_set_spread_snoc js_set_spread_Nil js_set_add_def)

lemma count_js_set_spread: "count_list (js_set_spread xs) x = (if x \<in> set xs then 1 else 0)"
  by (induction xs rule: rev_induct)
    (auto simp: js_set_spread_snoc js_set_spread_Nil js_set_add_def set_js_set_spread
      count_list_0_iff)

lemma first_index_mem: "x \<in> set xs \<Longrightarrow> first_index (xs @ ys) x = first_index xs x"
  by (simp add: first_index_def takeWhile_append1)

lemma first_index_less: "x \<in> set xs \<Longrightarrow> first_index xs x < length xs"
  unfolding first_index_def by (induction xs) auto

lemma first_index_snoc_new: "x \<notin> set xs \<Longrightarrow> first_index (xs @ [x]) x = length xs"
  unfolding first_index_def by (induction xs) auto

lemma first_seen_order:
  assumes "x \<in> set xs" "y \<in> set xs"
  shows "first_index (js_set_spread xs) x < first_index (js_set_spread xs) y
         \<longleftrightarrow> first_index xs x < first_index xs y"
  using assms
proof (induction xs rule: rev_induct)
  case Nil
  then show ?case by simp
next
  case (snoc z zs)
  let ?d = "js_set_spread zs"
  show ?case
  proof (cases "z \<in> set zs")
    case True
    then have "js_set_spread (zs @ [z]) = ?d"
      by (simp add: js_set_spread_snoc js_set_add_def set_js_set_spread)
    moreover from True snoc.prems have "x \<in> set zs" "y \<in> set zs" by auto
    ultimately show ?thesis using snoc.IH by (simp add: first_index_mem)
  next
    case False
    then have d: "js_set_spread (zs @ [z]) = ?d @ [z]"
      by (simp add: js_set_spread_snoc js_set_add_def set_js_set_spread)
    have zd: "z \<notin> set ?d" using False by (simp add: set_js_set_spread)
    have len: "length ?d \<le> length zs"
      using distinct_js_set_spread[of zs] set_js_set_spread[of zs]
      by (metis card_length distinct_card)
    consider "x \<in> set zs" "y \<in> set zs" | "x \<in> set zs" "y = z" | "x = z" "y \<in> set zs" | "x = z" "y = z"
      using snoc.prems by auto
    then show ?thesis
    proof cases
      case 1
      then show ?thesis using snoc.IH d by (simp add: first_index_mem set_js_set_spread)
    next
      case 2
      then show ?thesis
        using d False zd first_index_less[of x zs] first_index_less[of x ?d]
        by (simp add: first_index_mem set_js_set_spread first_index_snoc_new)
    next
      case 3
      then show ?thesis
        using d False zd first_index_less[of y zs] first_index_less[of y ?d]
        by (simp add: first_index_mem set_js_set_spread first_index_snoc_new)
    next
      case 4
      then show ?thesis by simp
    qed
  qed
qed

lemma installList_push_all:
  "installList (push_all ps st)
     = \<lparr>regular = regular (installList st) @ concat (map regular ps),
        dev = dev (installList st) @ concat (map dev ps)\<rparr>"
  by (induction ps arbitrary: st) (simp_all add: push_all_def addToInstallList_def)

lemma calls_push_all: "installPackages_calls (push_all ps st) = installPackages_calls st"
  by (induction ps arbitrary: st) (simp_all add: push_all_def addToInstallList_def)

lemma utf16_blank: "utf16 '' '' = [0x20]"
  by (simp add: utf16_def)

lemma plain_name_no_blank: "plain_name x \<Longrightarrow> 0x20 \<notin> set x"
  by (auto simp: plain_name_def list_all_iff js_whitespace_def)

lemma js_trim_ends:
  assumes "s = [] \<or> (\<not> js_whitespace (hd s) \<and> \<not> js_whitespace (last s))"
  shows "js_trim s = s"
proof (cases s)
  case Nil
  then show ?thesis by (simp add: js_trim_def)
next
  case (Cons c cs)
  with assms have h: "\<not> js_whitespace (hd s)" and l: "\<not> js_whitespace (last s)" by auto
  have 1: "dropWhile js_whitespace s = s" using h by (simp add: dropWhile_eq_self_iff)
  have "hd (rev s) = last s" using Cons by (simp add: hd_rev)
  then have 2: "dropWhile js_whitespace (rev s) = rev s"
    using l by (simp add: dropWhile_eq_self_iff)
  show ?thesis by (simp add: js_trim_def 1 2)
qed

lemma js_trim_plain: "plain_name x \<Longrightarrow> js_trim x = x"
proof (rule js_trim_ends)
  assume p: "plain_name x"
  then have "x \<noteq> []" and a: "\<forall>c \<in> set x. \<not> js_whitespace c"
    by (simp_all add: plain_name_def list_all_iff)
  then have "hd x \<in> set x" "last x \<in> set x" by simp_all
  with a show "x = [] \<or> (\<not> js_whitespace (hd x) \<and> \<not> js_whitespace (last x))" by blast
qed

lemma map_js_trim_plain: "list_all plain_name xs \<Longrightarrow> map js_trim xs = xs"
  by (induction xs) (simp_all add: js_trim_plain)

lemma js_join_ends:
  assumes "xs \<noteq> []" "list_all plain_name xs"
  shows "js_join sep xs \<noteq> [] \<and> hd (js_join sep xs) = hd (hd xs)
         \<and> last (js_join sep xs) = last (last xs)"
  using assms
proof (induction sep xs rule: js_join.induct)
  case (1 sep)
  then show ?case by simp
next
  case (2 sep x)
  then show ?case by (simp add: plain_name_def)
next
  case (3 sep x y ys)
  from "3.prems" have px: "plain_name x" and r: "list_all plain_name (y # ys)" by simp_all
  from px have x: "x \<noteq> []" by (simp add: plain_name_def)
  from "3.IH" r have ih: "js_join sep (y # ys) \<noteq> []"
    "last (js_join sep (y # ys)) = last (last (y # ys))" by simp_all
  show ?case using x ih by simp
qed

lemma js_trim_join_plain:
  assumes "list_all plain_name xs"
  shows "js_trim (js_join sep xs) = js_join sep xs"
proof (cases "xs = []")
  case True
  then show ?thesis by (simp add: js_trim_def)
next
  case False
  from js_join_ends[OF False assms, of sep]
  have e: "hd (js_join sep xs) = hd (hd xs)" "last (js_join sep xs) = last (last xs)" by simp_all
  have "plain_name (hd xs)" "plain_name (last xs)"
    using False assms by (simp_all add: list_all_iff)
  then have "\<not> js_whitespace (hd (hd xs))" "\<not> js_whitespace (last (last xs))"
    by (simp_all add: plain_name_def list_all_iff)
  then show ?thesis using e by (intro js_trim_ends) simp
qed

lemma split_at_none: "sep \<notin> set x \<Longrightarrow> split_at sep x = [x]"
  by (induction x) auto

lemma split_at_first: "sep \<notin> set x \<Longrightarrow> split_at sep (x @ sep # r) = x # split_at sep r"
  by (induction x) auto

lemma split_at_join:
  assumes "xs \<noteq> []" "\<forall>x \<in> set xs. sep \<notin> set x"
  shows "split_at sep (js_join [sep] xs) = xs"
  using assms
proof (induction "[sep]" xs rule: js_join.induct)
  case 1
  then show ?case by simp
next
  case (2 x)
  then show ?case by (simp add: split_at_none)
next
  case (3 x y ys)
  then show ?case by (simp add: split_at_first)
qed

lemma words_of_join_plain:
  assumes "list_all plain_name xs"
  shows "words_of (js_join (utf16 '' '') xs) = xs"
proof (cases "xs = []")
  case True
  then show ?thesis by (simp add: words_of_def)
next
  case False
  have "\<forall>x \<in> set xs. 0x20 \<notin> set x"
    using assms plain_name_no_blank by (auto simp: list_all_iff)
  from split_at_join[OF False this]
  have "words_of (js_join (utf16 '' '') xs) = filter (\<lambda>w. w \<noteq> []) xs"
    by (simp add: words_of_def utf16_blank)
  also have "\<dots> = xs" using assms by (induction xs) (simp_all add: plain_name_def)
  finally show ?thesis .
qed

text \<open>What the installer receives for a collection of plain names: the distinct names,
  each once, in the order of first appearance.\<close>

lemma argument_of_plain_names:
  assumes "list_all plain_name xs"
  shows "words_of (js_trim (js_join (utf16 '' '') (map js_trim (js_set_spread xs))))
           = js_set_spread xs"
proof -
  have p: "list_all plain_name (js_set_spread xs)"
    using assms by (simp add: list_all_iff set_js_set_spread)
  show ?thesis
    by (simp add: map_js_trim_plain[OF p] js_trim_join_plain[OF p] words_of_join_plain[OF p])
qed

text \<open>
  C6 (as the code has it).  Whatever is pushed, in whatever order and however often: when
  anything was pushed, the flush calls the installer once; each of its two argument
  strings is the trimmed join, with single blanks, of the trimmed entries of one
  collection, where every distinct entry of the collection is taken exactly once, in the
  order of first appearance.  The entries are compared before they are trimmed.  When
  the names of a collection are plain (not empty, no white space), the words of its
  argument string are exactly its distinct names, each once, in the order of first
  appearance.
\<close>

theorem flush_passes_each_name_once:
  fixes ps :: "install_list list"
  defines "R \<equiv> concat (map regular ps)" and "D \<equiv> concat (map dev ps)"
  assumes "R \<noteq> [] \<or> D \<noteq> []"
  shows "installPackages_calls (installPackagesFromList cfg (push_all ps initial_state))
           = [((js_trim (js_join (utf16 '' '') (map js_trim (js_set_spread R))),
                js_trim (js_join (utf16 '' '') (map js_trim (js_set_spread D)))),
               preferredPackageManager cfg)]
         \<and> (\<forall>x. count_list (js_set_spread R) x = (if x \<in> set R then 1 else 0))
         \<and> (\<forall>x. count_list (js_set_spread D) x = (if x \<in> set D then 1 else 0))
         \<and> (\<forall>x \<in> set R. \<forall>y \<in> set R.
               first_index (js_set_spread R) x < first_index (js_set_spread R) y
               \<longleftrightarrow> first_index R x < first_index R y)
         \<and> (\<forall>x \<in> set D. \<forall>y \<in> set D.
               first_index (js_set_spread D) x < first_index (js_set_spread D) y
               \<longleftrightarrow> first_index D x < first_index D y)
         \<and> (list_all plain_name R \<longrightarrow>
               words_of (js_trim (js_join (utf16 '' '') (map js_trim (js_set_spread R))))
                 = js_set_spread R)
         \<and> (list_all plain_name D \<longrightarrow>
               words_of (js_trim (js_join (utf16 '' '') (map js_trim (js_set_spread D))))
                 = js_set_spread D)"
proof -
  have "installList (push_all ps initial_state) = \<lparr>regular = R, dev = D\<rparr>"
    by (simp add: installList_push_all initial_state_def R_def D_def)
  moreover have "installPackages_calls (push_all ps initial_state) = []"
    by (simp add: calls_push_all initial_state_def)
  ultimately have "installPackages_calls (installPackagesFromList cfg (push_all ps initial_state))
           = [((js_trim (js_join (utf16 '' '') (map js_trim (js_set_spread R))),
                js_trim (js_join (utf16 '' '') (map js_trim (js_set_spread D)))),
               preferredPackageManager cfg)]"
    using assms(3)
    by (auto simp: installPackagesFromList_def formattedInstallList_def dedupedList_def)
  then show ?thesis
    by (simp add: count_js_set_spread first_seen_order argument_of_plain_names)
qed

theorem flush_passes_each_name_once_witness:
  "concat (map regular example_pushes) \<noteq> []
   \<and> list_all plain_name (concat (map regular example_pushes))
   \<and> list_all plain_name (concat (map dev example_pushes))
   \<and> installPackages_calls
        (installPackagesFromList example_config (push_all example_pushes initial_state))
       = [((utf16 ''zod drizzle-orm pg'', utf16 ''drizzle-kit @types/pg''), Some ''npm'')]
   \<and> words_of (utf16 ''zod drizzle-orm pg'') = [utf16 ''zod'', utf16 ''drizzle-orm'', utf16 ''pg'']
   \<and> words_of (utf16 ''drizzle-kit @types/pg'') = [utf16 ''drizzle-kit'', utf16 ''@types/pg'']"
proof -
  have h: "concat (map regular example_pushes) \<noteq> []
           \<or> concat (map dev example_pushes) \<noteq> []"
    by (simp add: example_pushes_def)
  have p: "list_all plain_name (concat (map regular example_pushes))"
    "list_all plain_name (concat (map dev example_pushes))"
    by (simp_all add: example_pushes_def plain_name_def js_whitespace_def utf16_def)
  have d: "js_set_spread (concat (map regular example_pushes))
             = [utf16 ''zod'', utf16 ''drizzle-orm'', utf16 ''pg'']"
          "js_set_spread (concat (map dev example_pushes))
             = [utf16 ''drizzle-kit'', utf16 ''@types/pg'']"
    by (simp_all add: example_pushes_def js_set_spread_def js_set_add_def utf16_def)
  have e: "js_trim (js_join (utf16 '' '')
               (map js_trim [utf16 ''zod'', utf16 ''drizzle-orm'', utf16 ''pg'']))
             = utf16 ''zod drizzle-orm pg''"
          "js_trim (js_join (utf16 '' '')
               (map js_trim [utf16 ''drizzle-kit'', utf16 ''@types/pg'']))
             = utf16 ''drizzle-kit @types/pg''"
    by (simp_all add: js_trim_def js_whitespace_def utf16_def)
  have r: "concat (map regular example_pushes) \<noteq> []"
    by (simp add: example_pushes_def)
  show ?thesis
    using r p flush_passes_each_name_once [OF h, of example_config, unfolded d e]
    by (simp add: example_config_def)
qed

text \<open>The claim as the specification words it fails: two entries that differ in
  surrounding white space only are distinct for the set, and after the trim the
  installer receives the same name twice.\<close>

theorem flush_duplicate_counterexample:
  "installPackages_calls
     (installPackagesFromList example_config
        (push_all [\<lparr>regular = [utf16 '' zod'', utf16 ''zod''], dev = []\<rparr>] initial_state))
     = [((utf16 ''zod zod'', []), Some ''npm'')]"
  by (simp add: formattedInstallList_def dedupedList_def js_set_spread_def js_set_add_def
      js_trim_def js_whitespace_def installPackagesFromList_def addToInstallList_def
      push_all_def initial_state_def example_config_def utf16_def)

text \<open>
  C7 (as the code has it).  The flush of the install list calls the installer exactly
  when one of the two collections has an entry; the test is on the collections, before
  they are deduplicated and trimmed.  The flush of the component list calls its installer
  exactly when the list has an entry.  A flush of empty collections changes nothing.
\<close>

theorem flush_gate:
  "installPackages_calls (installPackagesFromList cfg st)
     = (if regular (installList st) = [] \<and> dev (installList st) = []
        then installPackages_calls st
        else installPackages_calls st
               @ [(formattedInstallList (installList st), preferredPackageManager cfg)])
   \<and> installShadcnUIComponents_calls (installShadcnComponentList st)
     = (if shadCnComponentList st = [] then installShadcnUIComponents_calls st
        else installShadcnUIComponents_calls st @ [shadCnComponentList st])
   \<and> (regular (installList st) = [] \<and> dev (installList st) = []
        \<longrightarrow> installPackagesFromList cfg st = st)
   \<and> (shadCnComponentList st = [] \<longrightarrow> installShadcnComponentList st = st)"
  by (simp add: installPackagesFromList_def installShadcnComponentList_def)

theorem flush_gate_witness:
  "installPackages_calls (installPackagesFromList example_config initial_state) = []
   \<and> installShadcnUIComponents_calls (installShadcnComponentList initial_state) = []
   \<and> installPackagesFromList example_config initial_state = initial_state
   \<and> installShadcnComponentList initial_state = initial_state"
  using flush_gate [of example_config initial_state]
  by (simp add: initial_state_def)

text \<open>The claim C7 as the specification words it fails: a blank entry makes both
  argument strings empty, and the installer is called all the same.\<close>

theorem flush_blank_entry_counterexample:
  "formattedInstallList \<lparr>regular = [utf16 '' ''], dev = []\<rparr> = ([], [])
   \<and> installPackages_calls
        (installPackagesFromList example_config
           (addToInstallList \<lparr>regular = [utf16 '' ''], dev = []\<rparr> initial_state))
       = [(([], []), Some ''npm'')]"
  by (simp add: formattedInstallList_def dedupedList_def js_set_spread_def js_set_add_def
      js_trim_def js_whitespace_def installPackagesFromList_def addToInstallList_def
      initial_state_def example_config_def utf16_def)


subsection \<open>The summary reporter\<close>

text \<open>
  C8 (as the code has it).  The step is \<open>migrate\<close> when the field \<open>db\<close> of the
  selections is \<open>pg\<close>; the field \<open>dbProvider\<close> only appears in the label of the ORM.
  With \<open>db: "pg"\<close> added to the selections of the example, \<open>showNextSteps\<close> receives
  the four labels (each heading passed through \<open>chalk.underline\<close>), the six steps with
  \<open>migrate\<close>, and the two notes.
\<close>

theorem summary_example_pg:
  assumes "AuthProviders env ''google'' = Value (Some w)"
  shows "printNextSteps env pg_selections 4200
    = Inr \<lparr>installed =
             [underline env ''ORM'' @ '': Drizzle (using pg)'',
              underline env ''Authentication'' @ '': Auth.js (with google providers)'',
              underline env ''RPC'' @ '': tRPC'',
              underline env ''Component Library'' @ '': ShadcnUI''],
           steps =
             [''Add Environment Variables to your .env'',
              ''Run '' @ [CHR 0x27] @ ppm env @ '' run db:generate'' @ [CHR 0x27],
              ''Run '' @ [CHR 0x27] @ ppm env @ '' run db:migrate'' @ [CHR 0x27],
              ''Run '' @ [CHR 0x27] @ ppm env @ '' run dev'' @ [CHR 0x27],
              ''Open localhost:3000/ in your browser'',
              ''Build something awesome!''],
           notes =
             [''google auth: create credentials at '' @ w
                @ ''\<newline>  (redirect URI: /api/auth/callback/google)'',
              issue_note],
           duration = 4200\<rparr>"
  using assms
  by (simp add: printNextSteps_def packagesInstalledList_def nextAuthLabel_def
      authProviderInstructions_def authProviderInstruction_def nextSteps_def dbMigration_def
      wouldHaveSecrets_def runMigration_def template_string_def pg_selections_def
      spec_selections_def)

theorem summary_example_pg_witness:
  "AuthProviders example_reporter_env ''google''
     = Value (Some ''https://console.cloud.google.com/apis/credentials'')
   \<and> printNextSteps example_reporter_env pg_selections 4200
    = Inr \<lparr>installed =
             [''ORM: Drizzle (using pg)'',
              ''Authentication: Auth.js (with google providers)'',
              ''RPC: tRPC'',
              ''Component Library: ShadcnUI''],
           steps =
             [''Add Environment Variables to your .env'',
              ''Run '' @ [CHR 0x27] @ ''npm run db:generate'' @ [CHR 0x27],
              ''Run '' @ [CHR 0x27] @ ''npm run db:migrate'' @ [CHR 0x27],
              ''Run '' @ [CHR 0x27] @ ''npm run dev'' @ [CHR 0x27],
              ''Open localhost:3000/ in your browser'',
              ''Build something awesome!''],
           notes =
             [''google auth: create credentials at https://console.cloud.google.com/apis/credentials\<newline>  (redirect URI: /api/auth/callback/google)'',
              issue_note],
           duration = 4200\<rparr>"
proof -
  have w: "AuthProviders example_reporter_env ''google''
     = Value (Some ''https://console.cloud.google.com/apis/credentials'')"
    by (simp add: example_reporter_env_def)
  show ?thesis
    using w summary_example_pg [OF w]
    by (simp add: example_reporter_env_def ppm_def example_config_def)
qed

text \<open>With the selections exactly as the specification lists them, \<open>db\<close> is absent and
  the second migration step is \<open>push\<close>.\<close>

theorem summary_example_counterexample:
  "printNextSteps example_reporter_env spec_selections 4200
    = Inr \<lparr>installed =
             [''ORM: Drizzle (using pg)'',
              ''Authentication: Auth.js (with google providers)'',
              ''RPC: tRPC'',
              ''Component Library: ShadcnUI''],
           steps =
             [''Add Environment Variables to your .env'',
              ''Run '' @ [CHR 0x27] @ ''npm run db:generate'' @ [CHR 0x27],
              ''Run '' @ [CHR 0x27] @ ''npm run db:push'' @ [CHR 0x27],
              ''Run '' @ [CHR 0x27] @ ''npm run dev'' @ [CHR 0x27],
              ''Open localhost:3000/ in your browser'',
              ''Build something awesome!''],
           notes =
             [''google auth: create credentials at https://console.cloud.google.com/apis/credentials\<newline>  (redirect URI: /api/auth/callback/google)'',
              issue_note],
           duration = 4200\<rparr>"
  by (simp add: printNextSteps_def packagesInstalledList_def nextAuthLabel_def
      authProviderInstructions_def authProviderInstruction_def nextSteps_def dbMigration_def
      wouldHaveSecrets_def runMigration_def template_string_def
      spec_selections_def example_reporter_env_def ppm_def example_config_def)

text \<open>
  C9.  The label of Auth.js calls \<open>map\<close> on \<open>authProviders\<close> without the test that
  the notes make before they read the same field (\<open>authProviders && \<dots>\<close>).  With Auth.js
  selected and no \<open>authProviders\<close> the notes alone would be built, but the reporter
  throws a TypeError before \<open>showNextSteps\<close> is reached.
\<close>

theorem printNextSteps_throws_without_authProviders:
  "authProviderInstructions env no_providers_selections = Inr []
   \<and> printNextSteps env no_providers_selections d = Inl TypeError"
  by (simp add: printNextSteps_def packagesInstalledList_def nextAuthLabel_def
      authProviderInstructions_def no_providers_selections_def)

subsection \<open>Occurrences that cannot overlap\<close>

lemma prefix_iff_nth:
  "prefix xs ys \<longleftrightarrow> length xs \<le> length ys \<and> (\<forall>k<length xs. ys ! k = xs ! k)"
proof (induction xs arbitrary: ys)
  case Nil
  then show ?case by simp
next
  case (Cons x xs)
  show ?case
  proof (cases ys)
    case Nil
    then show ?thesis by simp
  next
    case (Cons y ys')
    have "(\<forall>k<Suc (length xs). (y # ys') ! k = (x # xs) ! k)
          \<longleftrightarrow> y = x \<and> (\<forall>k<length xs. ys' ! k = xs ! k)"
      by (auto simp: nth_Cons split: nat.splits) 
    with Cons Cons.IH[of ys'] show ?thesis by auto
  qed
qed

lemma occurs_at_iff_nth:
  "occurs_at pat s i \<longleftrightarrow> i + length pat \<le> length s \<and> (\<forall>k<length pat. s ! (i + k) = pat ! k)"
  by (auto simp: occurs_at_def prefix_iff_nth)

lemma occurs_at_nth: "occurs_at pat s i \<Longrightarrow> k < length pat \<Longrightarrow> s ! (i + k) = pat ! k"
  by (simp add: occurs_at_iff_nth)

lemma occurs_at_bound: "occurs_at pat s i \<Longrightarrow> i + length pat \<le> length s"
  by (simp add: occurs_at_iff_nth)

lemma occurs_at_append_left:
  "i + length pat \<le> length X \<Longrightarrow> occurs_at pat (X @ Y) i = occurs_at pat X i"
  by (auto simp: occurs_at_iff_nth nth_append)

lemma occurs_at_append_right: "occurs_at pat (X @ Y) (length X + j) = occurs_at pat Y j"
  by (auto simp: occurs_at_iff_nth nth_append add.assoc)

lemma occurs_at_append_right': 
  "length X \<le> q \<Longrightarrow> occurs_at pat (X @ Y) q = occurs_at pat Y (q - length X)"
  using occurs_at_append_right[of pat X Y "q - length X"] by simp

lemma occurs_at_self: "occurs_at pat (X @ pat @ Y) (length X)"
  using occurs_at_append_right[of pat X "pat @ Y" 0] by (simp add: occurs_at_def)

lemma barrier_char:
  assumes "occurs_at pat s q" "k < length s" "s ! k \<notin> set pat"
  shows "q + length pat \<le> k \<or> k < q"
proof (rule ccontr)
  assume "\<not> ?thesis"
  then have "q \<le> k" "k - q < length pat" by auto
  with occurs_at_nth[OF assms(1), of "k - q"] have "s ! k = pat ! (k - q)" by simp
  with \<open>k - q < length pat\<close> assms(3) show False by (metis nth_mem)
qed

lemma pair_sublist: "Suc j < length pat \<Longrightarrow> sublist [pat ! j, pat ! Suc j] pat"
proof -
  assume a: "Suc j < length pat"
  then have "pat = take j pat @ [pat ! j, pat ! Suc j] @ drop (Suc (Suc j)) pat"
    by (metis Cons_nth_drop_Suc Suc_lessD append_Cons append_Nil append_take_drop_id)
  then show ?thesis unfolding sublist_def by blast
qed

lemma barrier_pair:
  assumes "occurs_at pat s q" "Suc k < length s" "\<not> sublist [s ! k, s ! Suc k] pat"
  shows "q + length pat \<le> Suc k \<or> Suc k \<le> q"
proof (rule ccontr)
  assume "\<not> ?thesis"
  then have r: "q \<le> k" "Suc (k - q) < length pat" by auto
  from occurs_at_nth[OF assms(1), of "k - q"] r have "s ! k = pat ! (k - q)" by simp
  moreover from occurs_at_nth[OF assms(1), of "Suc (k - q)"] r
  have "s ! Suc k = pat ! Suc (k - q)" by simp
  ultimately show False using pair_sublist[OF r(2)] assms(3) by simp
qed

text \<open>Occurrences of an import-like pattern cannot touch a region guarded at both ends.\<close>

lemma region_no_touch:
  assumes imp: "prefix [a, b] imp"
    and R: "2 \<le> length R"
    and first: "\<not> sublist [R ! 0, R ! 1] imp" "last imp \<noteq> R ! 0"
    and inner: "\<not> sublist [a, b] R" "last R \<noteq> a"
  shows "no_touch imp X R Y"
  unfolding no_touch_def
proof (intro allI impI, rule ccontr)
  fix q
  assume occ: "occurs_at imp (X @ R @ Y) q"
    and "\<not> (q + length imp \<le> length X \<or> length X + length R \<le> q)"
  then have t: "length X < q + length imp" "q < length X + length R" by auto
  let ?s = "X @ R @ Y"
  from imp obtain rest where impeq: "imp = a # b # rest" by (auto simp: prefix_def)
  have len: "length ?s = length X + length R + length Y" by simp
  have sR: "?s ! (length X + j) = R ! j" if "j < length R" for j
    using that by (simp add: nth_append)
  from R have Rne: "R \<noteq> []" "1 < length R" by auto
  have sR0: "?s ! length X = R ! 0" using sR[of 0] Rne by simp
  have sR1: "?s ! Suc (length X) = R ! 1" using sR[of 1] Rne by simp
  show False
  proof (cases "q \<le> length X")
    case True
    show False
    proof (cases "q + length imp = Suc (length X)")
      case True
      then have "length imp - 1 < length imp" "q + (length imp - 1) = length X"
        using impeq by auto
      with occurs_at_nth[OF occ, of "length imp - 1"]
      have "?s ! length X = imp ! (length imp - 1)" by simp
      moreover note sR0
      moreover have "imp ! (length imp - 1) = last imp"
        using impeq by (simp add: last_conv_nth)
      ultimately show False using first(2) by simp
    next
      case False
      with t True have "Suc (length X) < q + length imp" by simp
      moreover have "Suc (length X) < length ?s" using R by simp
      ultimately show False
        using barrier_pair[OF occ, of "length X"] first(1) True sR0 sR1 by auto
    qed
  next
    case False
    define j where "j = q - length X"
    with False t have j: "0 < j" "j < length R" "q = length X + j" by auto
    have "?s ! q = imp ! 0" using occurs_at_nth[OF occ, of 0] impeq by simp
    then have Rj: "R ! j = a" using sR[OF j(2)] j(3) impeq by simp
    show False
    proof (cases "Suc j < length R")
      case True
      have "?s ! (q + 1) = imp ! 1" using occurs_at_nth[OF occ, of 1] impeq by simp
      then have "R ! Suc j = b" using sR[OF True] j(3) impeq by simp
      with Rj pair_sublist[OF True] inner(1) show False by simp
    next
      case False
      with j have "j = length R - 1" by simp
      then have "R ! j = last R" using Rne by (simp add: last_conv_nth)
      with Rj inner(2) show False by simp
    qed
  qed
qed


lemma sublist_pair_iff_nth:
  "sublist [a, b] s \<longleftrightarrow> (\<exists>k. Suc k < length s \<and> s ! k = a \<and> s ! Suc k = b)"
proof
  assume "sublist [a, b] s"
  then obtain ps ss where s: "s = ps @ [a, b] @ ss" unfolding sublist_def by blast
  have "Suc (length ps) < length s" using s by simp
  moreover have "s ! length ps = a" using s by (simp add: nth_append)
  moreover have "s ! Suc (length ps) = b" using s by (simp add: nth_append)
  ultimately show "\<exists>k. Suc k < length s \<and> s ! k = a \<and> s ! Suc k = b" by blast
next
  assume "\<exists>k. Suc k < length s \<and> s ! k = a \<and> s ! Suc k = b"
  then obtain k where "Suc k < length s" "s ! k = a" "s ! Suc k = b" by blast
  with pair_sublist[of k s] show "sublist [a, b] s" by simp
qed

lemma sublist_pair_append:
  "sublist [a, b] (xs @ ys) \<longleftrightarrow>
     sublist [a, b] xs \<or> sublist [a, b] ys \<or> (xs \<noteq> [] \<and> ys \<noteq> [] \<and> last xs = a \<and> hd ys = b)"
proof
  assume "sublist [a, b] (xs @ ys)"
  then obtain k where k: "Suc k < length xs + length ys" "(xs @ ys) ! k = a" "(xs @ ys) ! Suc k = b"
    unfolding sublist_pair_iff_nth by auto
  consider "Suc k < length xs" | "Suc k = length xs" | "length xs \<le> k" by linarith
  then show "sublist [a, b] xs \<or> sublist [a, b] ys
      \<or> (xs \<noteq> [] \<and> ys \<noteq> [] \<and> last xs = a \<and> hd ys = b)"
  proof cases
    case 1
    with k have "xs ! k = a" "xs ! Suc k = b" by (simp_all add: nth_append)
    with 1 have "sublist [a, b] xs" unfolding sublist_pair_iff_nth by blast
    then show ?thesis by simp
  next
    case 2
    then have ne: "xs \<noteq> []" "ys \<noteq> []" using k(1) by auto
    have "k = length xs - 1" using 2 by simp
    then have "last xs = xs ! k" using ne by (simp add: last_conv_nth)
    moreover have "xs ! k = a" using k(2) 2 by (simp add: nth_append)
    moreover have "ys ! 0 = b" using k(3) 2 by (simp add: nth_append)
    moreover have "hd ys = ys ! 0" using ne by (simp add: hd_conv_nth)
    ultimately show ?thesis using ne by simp
  next
    case 3
    with k have "ys ! (k - length xs) = a" "ys ! Suc (k - length xs) = b"
      by (simp_all add: nth_append Suc_diff_le)
    moreover have "Suc (k - length xs) < length ys" using 3 k(1) by simp
    ultimately have "sublist [a, b] ys" unfolding sublist_pair_iff_nth by blast
    then show ?thesis by simp
  qed
next
  assume a: "sublist [a, b] xs \<or> sublist [a, b] ys
      \<or> (xs \<noteq> [] \<and> ys \<noteq> [] \<and> last xs = a \<and> hd ys = b)"
  then consider "sublist [a, b] xs" | "sublist [a, b] ys"
    | "xs \<noteq> []" "ys \<noteq> []" "last xs = a" "hd ys = b" by blast
  then show "sublist [a, b] (xs @ ys)"
  proof cases
    case 1
    then obtain ps ss where "xs = ps @ [a, b] @ ss" unfolding sublist_def by blast
    then have "xs @ ys = ps @ [a, b] @ (ss @ ys)" by simp
    then show ?thesis unfolding sublist_def by blast
  next
    case 2
    then obtain ps ss where "ys = ps @ [a, b] @ ss" unfolding sublist_def by blast
    then have "xs @ ys = (xs @ ps) @ [a, b] @ ss" by simp
    then show ?thesis unfolding sublist_def by blast
  next
    case 3
    have x: "butlast xs @ [a] = xs" using 3 append_butlast_last_id[of xs] by simp
    have y: "b # tl ys = ys" using 3 hd_Cons_tl[of ys] by simp
    have "xs @ ys = (butlast xs @ [a]) @ (b # tl ys)" by (simp only: x y)
    then have "xs @ ys = butlast xs @ [a, b] @ tl ys" by simp
    then show ?thesis unfolding sublist_def by blast
  qed
qed


lemma not_in_set_no_pair: "a \<notin> set P \<Longrightarrow> \<not> sublist [a, b] P"
  by (auto dest: set_mono_sublist)

lemma not_in_set_last: "a \<notin> set P \<Longrightarrow> P \<noteq> [] \<Longrightarrow> last P \<noteq> a"
  by (metis last_in_set)

lemma path_ok_chars:
  assumes "path_ok P"
  shows "CHR 0x0A \<notin> set P" "CHR '' '' \<notin> set P" "CHR ''<'' \<notin> set P" "CHR ''>'' \<notin> set P"
    "CHR ''{'' \<notin> set P" "CHR ''}'' \<notin> set P"
  using assms by (auto simp: path_ok_def)

lemma import_last: "last (importStatement cfg p) = CHR '';''"
  by (cases p) simp_all

lemma import_no_lt:
  assumes "config_ok cfg" shows "CHR ''<'' \<notin> set (importStatement cfg p)"
proof -
  from assms have "CHR ''<'' \<notin> set (alias cfg)" "CHR ''<'' \<notin> set (authProviderComponent cfg)"
    "CHR ''<'' \<notin> set (trpcProvider cfg)" "CHR ''<'' \<notin> set (navbarComponent cfg)"
    "CHR ''<'' \<notin> set (sidebarComponent cfg)"
    by (simp_all add: config_ok_def path_ok_chars)
  then show ?thesis by (cases p) simp_all
qed

lemma import_no_brace_c:
  assumes "config_ok cfg" shows "\<not> sublist ''{c'' (importStatement cfg p)"
proof -
  have P: "\<not> sublist ''{c'' P \<and> (P \<noteq> [] \<longrightarrow> last P \<noteq> CHR ''{'')" if "path_ok P" for P
  proof -
    from that have "CHR ''{'' \<notin> set P" by (rule path_ok_chars)
    then show ?thesis
      using not_in_set_no_pair[of "CHR ''{''" P "CHR ''c''"] not_in_set_last[of "CHR ''{''" P]
      by simp
  qed
  from assms have "path_ok (alias cfg)" "path_ok (authProviderComponent cfg)"
    "path_ok (trpcProvider cfg)" "path_ok (navbarComponent cfg)" "path_ok (sidebarComponent cfg)"
    by (simp_all add: config_ok_def)
  note Q = this[THEN P]
  show ?thesis
  proof (cases p)
    case NextAuthProvider
    then show ?thesis using Q by (simp add: sublist_pair_append sublist_Cons_right)
  next
    case TrpcProvider
    then show ?thesis using Q by (simp add: sublist_pair_append sublist_Cons_right)
  next
    case ShadcnToast
    then show ?thesis using Q by (simp add: sublist_pair_append sublist_Cons_right)
  next
    case ClerkProvider
    then show ?thesis by (simp add: sublist_Cons_right)
  next
    case Navbar
    then show ?thesis using Q by (simp add: sublist_pair_append sublist_Cons_right)
  next
    case ThemeProvider
    then show ?thesis using Q by (simp add: sublist_pair_append sublist_Cons_right)
  qed
qed


lemma import_im: "prefix ''im'' (importStatement cfg p)"
  by (cases p) simp_all

lemma anchor_facts:
  "prefix ''{c'' children_anchor" "prefix ''<d'' navigation_block"
  "\<not> sublist ''im'' children_anchor" "\<not> sublist ''im'' navigation_block"
  "last children_anchor = CHR ''}''" "last navigation_block = CHR ''>''"
  by (simp_all add: children_anchor_def navigation_block_def sublist_Cons_right)

text \<open>The anchor the patcher searches for never overlaps an import statement.\<close>

lemma anchor_no_touch_import:
  assumes "config_ok cfg"
  shows "no_touch (searchValue nav) X (importStatement cfg p) Y"
proof -
  let ?imp = "importStatement cfg p"
  have l: "2 \<le> length ?imp" by (cases p) simp_all
  have i01: "?imp ! 0 = CHR ''i''" "?imp ! Suc 0 = CHR ''m''" by (cases p; simp)+
  have lt: "\<not> sublist ''<d'' ?imp"
    by (rule not_in_set_no_pair[OF import_no_lt[OF assms]])
  show ?thesis
  proof (cases nav)
    case True
    then have sv: "searchValue nav = navigation_block" by (simp add: searchValue_def)
    show ?thesis
      unfolding sv
      by (rule region_no_touch[OF anchor_facts(2) l])
        (simp_all add: i01 anchor_facts import_last lt)
  next
    case False
    then have sv: "searchValue nav = children_anchor" by (simp add: searchValue_def)
    show ?thesis
      unfolding sv
      by (rule region_no_touch[OF anchor_facts(1) l])
        (simp_all add: i01 anchor_facts import_last import_no_brace_c[OF assms])
  qed
qed

lemma replace_keeps_untouched:
  assumes "no_touch sv X R Y"
  shows "\<exists>X' Y'. js_replace (X @ R @ Y) sv rt = X' @ R @ Y'"
proof (cases "first_occ sv (X @ R @ Y)")
  case None
  then show ?thesis by (auto simp: js_replace_def)
next
  case (Some i)
  then have occ: "occurs_at sv (X @ R @ Y) i" by (simp add: first_occ_Some_iff)
  with assms consider "i + length sv \<le> length X" | "length X + length R \<le> i"
    unfolding no_touch_def by blast
  then show ?thesis
  proof cases
    case 1
    then have "js_replace (X @ R @ Y) sv rt
        = (take i X @ rt @ drop (i + length sv) X) @ R @ Y"
      using Some by (simp add: js_replace_def)
    then show ?thesis by blast
  next
    case 2
    then have "js_replace (X @ R @ Y) sv rt
        = X @ R @ (take (i - length X - length R) Y @ rt
            @ drop (i + length sv - length X - length R) Y)"
      using Some by (simp add: js_replace_def)
    then show ?thesis by blast
  qed
qed

lemma js_includes_self: "js_includes (X @ R @ Y) R"
  unfolding js_includes_iff using occurs_at_self by blast

lemma new_layout_keeps_import:
  assumes "config_ok cfg"
  shows "js_includes (newLayoutContent cfg p c) (importStatement cfg p)"
proof -
  have "no_touch (searchValue (navbarExists c)) (beforeImport c) (importStatement cfg p)
          (''\<newline>'' @ afterImport c)"
    by (rule anchor_no_touch_import[OF assms])
  from replace_keeps_untouched[OF this,
      of "replacementText p (rootChildrenText (navbarExists c))"]
  obtain X' Y' where "newLayoutContent cfg p c = X' @ importStatement cfg p @ Y'"
    unfolding newLayoutContent_def modifiedImportContent_def by blast
  then show ?thesis by (simp add: js_includes_self)
qed

text \<open>
  C1.  With a configuration whose alias and import paths are free of blanks, line breaks,
  angle brackets and braces, applying a provider twice is the same as applying it once,
  for every state of the file system: when the first application writes a document, that
  document contains the import statement, so the second application returns at once;
  when the first one fails or returns at once, so does the second.
\<close>

theorem apply_twice_is_apply_once:
  assumes "config_ok cfg"
  shows "apply_then (addContextProviderToLayout cfg p) (addContextProviderToLayout cfg p) s
           = addContextProviderToLayout cfg p s"
proof (cases "files s (layout_path cfg)")
  case None
  then show ?thesis by (simp add: apply_then_def addContextProviderToLayout_def)
next
  case (Some c)
  show ?thesis
  proof (cases "js_includes c (importStatement cfg p)")
    case True
    with Some show ?thesis by (simp add: apply_then_def addContextProviderToLayout_def)
  next
    case False
    with Some have 1: "addContextProviderToLayout cfg p s
        = Inr (replaceFile (layout_path cfg) (newLayoutContent cfg p c) s)"
      by (simp add: addContextProviderToLayout_def)
    have "addContextProviderToLayout cfg p
            (replaceFile (layout_path cfg) (newLayoutContent cfg p c) s)
          = Inr (replaceFile (layout_path cfg) (newLayoutContent cfg p c) s)"
      using new_layout_keeps_import[OF assms, of p c]
      by (simp add: addContextProviderToLayout_def replaceFile_def)
    with 1 show ?thesis by (simp add: apply_then_def)
  qed
qed


lemma example_config_ok: "config_ok example_config"
  by (simp add: config_ok_def path_ok_def example_config_def)

theorem apply_twice_is_apply_once_witness:
  "config_ok example_config
   \<and> apply_then (addContextProviderToLayout example_config ClerkProvider)
        (addContextProviderToLayout example_config ClerkProvider)
        (fs_with example_config plain_layout)
       = Inr (replaceFile (layout_path example_config) plain_layout_clerk
               (fs_with example_config plain_layout))"
proof -
  have n: "newLayoutContent example_config ClerkProvider plain_layout = plain_layout_clerk"
    unfolding plain_layout_def plain_layout_clerk_def by code_simp
  have i: "\<not> js_includes plain_layout (importStatement example_config ClerkProvider)"
    unfolding plain_layout_def by code_simp
  have "addContextProviderToLayout example_config ClerkProvider
          (fs_with example_config plain_layout)
        = Inr (replaceFile (layout_path example_config) plain_layout_clerk
               (fs_with example_config plain_layout))"
    using n i by (simp add: addContextProviderToLayout_def fs_with_def)
  then show ?thesis
    using example_config_ok
      apply_twice_is_apply_once [OF example_config_ok, of ClerkProvider
        "fs_with example_config plain_layout"]
    by simp
qed

subsection \<open>The layout patcher: two providers in a row\<close>

lemma occurs_at_le: "occurs_at pat s i \<Longrightarrow> i \<le> length s"
  by (simp add: occurs_at_def)

lemma count_occ_card:
  "count_occ pat s = card ({q. occurs_at pat s q} \<inter> {0..<Suc (length s)})"
proof -
  have "distinct [0..<Suc (length s)]" by (rule distinct_upt)
  then have "length (filter (occurs_at pat s) [0..<Suc (length s)])
      = card ({q. occurs_at pat s q} \<inter> set [0..<Suc (length s)])"
    by (rule distinct_length_filter)
  then show ?thesis by (simp only: count_occ_def set_upt)
qed

lemma count_occ_one:
  assumes "occurs_at pat s i" "at_most_once pat s"
  shows "count_occ pat s = 1"
proof -
  have h: "{q. occurs_at pat s q} \<inter> {0..<Suc (length s)} = {i}"
  proof (rule set_eqI)
    fix k
    show "k \<in> {q. occurs_at pat s q} \<inter> {0..<Suc (length s)} \<longleftrightarrow> k \<in> {i}"
    proof
      assume "k \<in> {q. occurs_at pat s q} \<inter> {0..<Suc (length s)}"
      then have "occurs_at pat s k" by simp
      with assms show "k \<in> {i}" by (simp add: at_most_once_def)
    next
      assume "k \<in> {i}"
      then have "k = i" by simp
      moreover have "i < Suc (length s)" using occurs_at_le[OF assms(1)] by simp
      ultimately show "k \<in> {q. occurs_at pat s q} \<inter> {0..<Suc (length s)}"
        using assms(1) by simp
    qed
  qed
  show ?thesis unfolding count_occ_card h by simp
qed

lemma no_touchD:
  "no_touch pat X R Y \<Longrightarrow> occurs_at pat (X @ R @ Y) q
     \<Longrightarrow> q + length pat \<le> length X \<or> length X + length R \<le> q"
  by (simp add: no_touch_def)

text \<open>An occurrence that does not overlap the middle part is an occurrence whatever
  the middle part is.\<close>

lemma occurs_at_swap_middle:
  assumes "occurs_at pat (X @ R @ Y) q"
    and "q + length pat \<le> length X \<or> length X + length R \<le> q"
  shows "occurs_at pat (X @ R' @ Y)
           (if q + length pat \<le> length X then q else q - length R + length R')"
proof (cases "q + length pat \<le> length X")
  case True
  with assms(1) have "occurs_at pat X q" by (simp add: occurs_at_append_left)
  with True show ?thesis by (simp add: occurs_at_append_left)
next
  case False
  with assms(2) have r: "length X + length R \<le> q" by simp
  define d where "d = q - length X - length R"
  have q: "q = length (X @ R) + d" using r by (simp add: d_def)
  have "occurs_at pat ((X @ R) @ Y) (length (X @ R) + d)"
    using assms(1) unfolding q by simp
  then have "occurs_at pat Y d" by (simp only: occurs_at_append_right)
  then have "occurs_at pat ((X @ R') @ Y) (length (X @ R') + d)"
    by (simp only: occurs_at_append_right)
  then have "occurs_at pat (X @ R' @ Y) (length X + length R' + d)" by simp
  moreover have "q - length R + length R' = length X + length R' + d"
    using r by (simp add: d_def)
  ultimately have "occurs_at pat (X @ R' @ Y) (q - length R + length R')" by (simp only:)
  then show ?thesis using False by (simp only: if_False)
qed

lemma includes_swap_middle:
  assumes "no_touch pat X R Y" "js_includes (X @ R @ Y) pat"
  shows "js_includes (X @ R' @ Y) pat"
proof -
  from assms(2) obtain q where q: "occurs_at pat (X @ R @ Y) q" by (auto simp: js_includes_iff)
  from occurs_at_swap_middle[OF q no_touchD[OF assms(1) q], of R']
  show ?thesis unfolding js_includes_iff by blast
qed

lemma at_most_once_swap_middle:
  assumes ne: "pat \<noteq> []"
    and nt: "no_touch pat X R' Y"
    and amo: "at_most_once pat (X @ R @ Y)"
  shows "at_most_once pat (X @ R' @ Y)"
  unfolding at_most_once_def
proof (intro allI impI)
  fix i j
  assume i: "occurs_at pat (X @ R' @ Y) i" and j: "occurs_at pat (X @ R' @ Y) j"
  let ?f = "\<lambda>q. if q + length pat \<le> length X then q else q - length R' + length R"
  have fi: "occurs_at pat (X @ R @ Y) (?f i)"
    by (rule occurs_at_swap_middle[OF i no_touchD[OF nt i]])
  have fj: "occurs_at pat (X @ R @ Y) (?f j)"
    by (rule occurs_at_swap_middle[OF j no_touchD[OF nt j]])
  from amo fi fj have eq: "?f i = ?f j" unfolding at_most_once_def by blast
  have lp: "0 < length pat" using ne by simp
  define a where "a = length X"
  define r where "r = length R"
  define r' where "r' = length R'"
  define l where "l = length pat"
  from no_touchD[OF nt i] have ci: "i + l \<le> a \<or> a + r' \<le> i"
    by (simp add: a_def r'_def l_def)
  from no_touchD[OF nt j] have cj: "j + l \<le> a \<or> a + r' \<le> j"
    by (simp add: a_def r'_def l_def)
  from eq have e: "(if i + l \<le> a then i else i - r' + r) = (if j + l \<le> a then j else j - r' + r)"
    by (simp only: a_def r_def r'_def l_def)
  have lp': "0 < l" using lp by (simp add: l_def)
  show "i = j"
  proof (cases "i + l \<le> a")
    case True
    note Ti = this
    show ?thesis
    proof (cases "j + l \<le> a")
      case True
      with Ti e show ?thesis by simp
    next
      case False
      with cj have "a + r' \<le> j" by simp
      with Ti False e lp' show ?thesis by simp
    qed
  next
    case False
    note Fi = this
    with ci have ir: "a + r' \<le> i" by simp
    show ?thesis
    proof (cases "j + l \<le> a")
      case True
      with Fi e ir lp' show ?thesis by simp
    next
      case False
      with cj have "a + r' \<le> j" by simp
      with Fi False e ir show ?thesis by simp
    qed
  qed
qed

lemma first_occ_in_middle:
  assumes none: "\<And>q. \<not> occurs_at pat X q"
    and cross: "\<And>q. occurs_at pat (X @ R @ Y) q \<Longrightarrow> q + length pat \<le> length X \<or> length X \<le> q"
    and R: "first_occ pat R = Some j"
  shows "first_occ pat (X @ R @ Y) = Some (length X + j)"
proof -
  from R have oj: "occurs_at pat R j" and fj: "\<And>k. k < j \<Longrightarrow> \<not> occurs_at pat R k"
    by (simp_all add: first_occ_Some_iff)
  have bj: "j + length pat \<le> length R" using first_occ_bound[OF R] .
  have "occurs_at pat (R @ Y) j" using oj bj by (simp add: occurs_at_append_left)
  then have 1: "occurs_at pat (X @ R @ Y) (length X + j)" by (simp add: occurs_at_append_right)
  have 2: "\<not> occurs_at pat (X @ R @ Y) q" if "q < length X + j" for q
  proof
    assume o: "occurs_at pat (X @ R @ Y) q"
    from cross[OF o] show False
    proof
      assume "q + length pat \<le> length X"
      with o have "occurs_at pat X q" by (simp add: occurs_at_append_left)
      with none show False by blast
    next
      assume l: "length X \<le> q"
      with o have "occurs_at pat (R @ Y) (q - length X)" by (simp add: occurs_at_append_right')
      moreover have "q - length X + length pat \<le> length R" using that l bj by simp
      ultimately have "occurs_at pat R (q - length X)" by (simp add: occurs_at_append_left)
      moreover have "q - length X < j" using that l by simp
      ultimately show False using fj by blast
    qed
  qed
  from 1 2 show ?thesis by (simp add: first_occ_Some_iff)
qed

lemma js_replace_at:
  assumes "first_occ pat (X @ pat @ Y) = Some (length X)"
  shows "js_replace (X @ pat @ Y) pat rt = X @ rt @ Y"
  using assms by (simp add: js_replace_def)

lemma first_occ_split:
  assumes "first_occ pat s = Some i" and ne: "pat \<noteq> []"
  shows "s = take i s @ pat @ drop (i + length pat) s"
    and "\<And>q. \<not> occurs_at pat (take i s) q"
proof -
  from assms have o: "occurs_at pat s i" and f: "\<And>k. k < i \<Longrightarrow> \<not> occurs_at pat s k"
    by (simp_all add: first_occ_Some_iff)
  from o have "prefix pat (drop i s)" by (simp add: occurs_at_def)
  then obtain zs where z: "drop i s = pat @ zs" by (auto simp: prefix_def)
  then have "drop (length pat) (drop i s) = zs" by simp
  then have "drop (i + length pat) s = zs" by (simp add: add.commute)
  with z have "drop i s = pat @ drop (i + length pat) s" by simp
  then have "take i s @ drop i s = take i s @ pat @ drop (i + length pat) s" by simp
  then show s: "s = take i s @ pat @ drop (i + length pat) s" by simp
  show "\<not> occurs_at pat (take i s) q" for q
  proof
    assume a: "occurs_at pat (take i s) q"
    then have b: "q + length pat \<le> length (take i s)" by (rule occurs_at_bound)
    have "occurs_at pat (take i s @ drop i s) q"
      using a b by (simp only: occurs_at_append_left)
    then have oq: "occurs_at pat s q" by simp
    have lp: "0 < length pat" using ne by simp
    from b have "q + length pat \<le> i" by simp
    with lp have "q < i" by linarith
    with f oq show False by blast
  qed
qed

lemma heads_disjoint:
  "h \<in> set first_line_heads \<Longrightarrow> h \<in> set second_line_heads \<Longrightarrow> False"
  by (auto simp: first_line_heads_def second_line_heads_def)

lemma first_head_import: "h \<in> set first_line_heads \<Longrightarrow> prefix ''import '' h"
  by (auto simp: first_line_heads_def)

lemma second_head_import: "h \<in> set second_line_heads \<Longrightarrow> prefix ''import '' h"
  by (auto simp: second_line_heads_def)

lemma head_prefix_line:
  assumes "prefix ''import '' (take 11 h)"
  shows "prefix ''import'' (h @ r)"
proof -
  have "prefix ''import'' ''import ''" by simp
  also note assms
  also have "prefix (take 11 h) h" by (rule take_is_prefix)
  also have "prefix h (h @ r)" by simp
  finally show ?thesis .
qed

lemma occurs_at_drop:
  assumes "occurs_at pat s pos" "k + m \<le> length pat"
  shows "take m (drop (pos + k) s) = take m (drop k pat)"
proof -
  from assms(1) obtain zs where "drop pos s = pat @ zs"
    by (auto simp: occurs_at_def prefix_def)
  then have "drop k (drop pos s) = drop k pat @ zs" using assms(2) by simp
  then have "drop (pos + k) s = drop k pat @ zs" by (simp add: add.commute)
  then show ?thesis using assms(2) by simp
qed

lemma import_like_prefix:
  assumes "import_like s" shows "prefix ''import '' s"
proof -
  from assms have "prefix ''import '' (take 11 s)"
    by (simp add: import_like_def first_head_import)
  then show ?thesis using take_is_prefix prefix_order.trans by blast
qed

lemma import_insert_cases:
  assumes P: "import_like P" and Q: "import_like Q"
    and X: "X = [] \<or> last X = CHR 0x0A"
    and occ: "occurs_at P (X @ (Q @ ''\<newline>'') @ Y) pos"
  shows "pos + length P \<le> length X \<or> length X + length (Q @ ''\<newline>'') \<le> pos
         \<or> (pos = length X \<and> take 11 P = take 11 Q)"
proof (rule ccontr)
  assume neg: "\<not> ?thesis"
  let ?s = "X @ (Q @ ''\<newline>'') @ Y"
  have lP: "11 \<le> length P" and lQ: "11 \<le> length Q"
    using P Q by (simp_all add: import_like_def)
  have tQ: "take 11 (drop (length X) ?s) = take 11 Q" using lQ by simp
  consider "pos < length X" | "pos = length X" | "length X < pos" by linarith
  then show False
  proof cases
    case 1
    with neg have c: "length X < pos + length P" by simp
    define k where "k = length X - pos"
    have k: "0 < k" "k < length P" "pos + k = length X" using 1 c by (simp_all add: k_def)
    from 1 have "X \<noteq> []" by auto
    with X have "last X = CHR 0x0A" by simp
    then have "?s ! (length X - 1) = CHR 0x0A"
      using \<open>X \<noteq> []\<close> by (simp add: nth_append last_conv_nth)
    moreover have "?s ! (pos + (k - 1)) = P ! (k - 1)"
      using occurs_at_nth[OF occ, of "k - 1"] k by simp
    moreover have "pos + (k - 1) = length X - 1" using k by simp
    ultimately have "P ! (k - 1) = CHR 0x0A" by simp
    moreover have "k - 1 < length P" using k by simp
    ultimately have w: "Suc (k - 1) + 11 \<le> length P"
      "take 11 (drop (Suc (k - 1)) P) \<in> set second_line_heads"
      using P unfolding import_like_def by blast+
    from w k have "k + 11 \<le> length P" by simp
    from occurs_at_drop[OF occ this] k
    have "take 11 (drop k P) = take 11 Q" using tQ by simp
    moreover have "take 11 Q \<in> set first_line_heads" using Q by (simp add: import_like_def)
    moreover have "Suc (k - 1) = k" using k by simp
    ultimately show False using w(2) heads_disjoint by metis
  next
    case 2
    have "take 11 (drop (pos + 0) ?s) = take 11 (drop 0 P)"
      by (rule occurs_at_drop[OF occ]) (use lP in simp)
    with 2 tQ have "take 11 P = take 11 Q" by simp
    with 2 neg show False by simp
  next
    case 3
    with neg have u: "pos \<le> length X + length Q" by simp
    define j where "j = pos - length X"
    have j: "0 < j" "j \<le> length Q" "pos = length X + j" using 3 u by (simp_all add: j_def)
    have "occurs_at ''import '' ?s pos"
      using occurs_at_prefix_trans[OF import_like_prefix[OF P] occ] .
    then have o: "occurs_at ''import '' ((Q @ ''\<newline>'') @ Y) j"
      unfolding j(3) by (simp only: occurs_at_append_right)
    have "((Q @ ''\<newline>'') @ Y) ! length Q = CHR 0x0A" by (simp add: nth_append)
    then have "((Q @ ''\<newline>'') @ Y) ! length Q \<notin> set ''import ''" by simp
    moreover have "length Q < length ((Q @ ''\<newline>'') @ Y)" by simp
    ultimately have "j + length ''import '' \<le> length Q \<or> length Q < j"
      using barrier_char[OF o] by blast
    with j have b: "j + length ''import '' \<le> length Q" by simp
    have "occurs_at ''import '' (Q @ (''\<newline>'' @ Y)) j" using o by simp
    then have "occurs_at ''import '' Q j" using b by (simp only: occurs_at_append_left)
    with Q j have "Q ! (j - 1) = CHR 0x0A" unfolding import_like_def by auto
    moreover have "j - 1 < length Q" using j by simp
    ultimately have w: "Suc (j - 1) + 11 \<le> length Q"
      "take 11 (drop (Suc (j - 1)) Q) \<in> set second_line_heads"
      using Q unfolding import_like_def by blast+
    have sj: "Suc (j - 1) = j" using j by simp
    have "take 11 (drop (pos + 0) ?s) = take 11 (drop 0 P)"
      by (rule occurs_at_drop[OF occ]) (use lP in simp)
    then have "take 11 P = take 11 (drop (length X + j) ?s)" using j by simp
    also have "\<dots> = take 11 (drop j Q)" using w(1) sj by simp
    finally have "take 11 P \<in> set second_line_heads" using w(2) sj by simp
    moreover have "take 11 P \<in> set first_line_heads" using P by (simp add: import_like_def)
    ultimately show False using heads_disjoint by blast
  qed
qed

lemma line_import_at_start:
  assumes ho: "last_occ ''import '' h = Some 0"
    and r: "CHR '' '' \<notin> set r"
    and o: "occurs_at ''import '' (h @ r) j"
  shows "j = 0"
proof -
  have b: "j + 7 \<le> length (h @ r)" using occurs_at_bound[OF o] by simp
  have "(h @ r) ! (j + 6) = CHR '' ''" using occurs_at_nth[OF o, of 6] by simp
  have "j + 6 < length h"
  proof (rule ccontr)
    assume "\<not> j + 6 < length h"
    then have "(h @ r) ! (j + 6) = r ! (j + 6 - length h)" "j + 6 - length h < length r"
      using b by (simp_all add: nth_append)
    with \<open>(h @ r) ! (j + 6) = CHR '' ''\<close> r show False by (metis nth_mem)
  qed
  then have "j + length ''import '' \<le> length h" by simp
  with o have "occurs_at ''import '' h j" by (simp only: occurs_at_append_left)
  moreover from ho have "\<forall>q>0. \<not> occurs_at ''import '' h q"
    by (simp add: last_occ_Some_iff)
  ultimately show ?thesis by auto
qed

lemma import_like_one:
  assumes hl: "11 \<le> length h" and hh: "take 11 h \<in> set first_line_heads"
    and hn: "CHR 0x0A \<notin> set h" and ho: "last_occ ''import '' h = Some 0"
    and r: "CHR 0x0A \<notin> set r" "CHR '' '' \<notin> set r" "r \<noteq> []" "last r = CHR '';''"
  shows "import_like (h @ r)"
proof -
  have w1: "\<forall>k<length (h @ r). (h @ r) ! k = CHR 0x0A \<longrightarrow>
             Suc k + 11 \<le> length (h @ r)
             \<and> take 11 (drop (Suc k) (h @ r)) \<in> set second_line_heads"
  proof (intro allI impI)
    fix k assume "k < length (h @ r)" "(h @ r) ! k = CHR 0x0A"
    then have "CHR 0x0A \<in> set (h @ r)" by (metis nth_mem)
    with hn r(1) show "Suc k + 11 \<le> length (h @ r)
             \<and> take 11 (drop (Suc k) (h @ r)) \<in> set second_line_heads" by simp
  qed
  have w3: "\<forall>j. occurs_at ''import '' (h @ r) j \<longrightarrow> j = 0 \<or> (h @ r) ! (j - 1) = CHR 0x0A"
    using line_import_at_start[OF ho r(2)] by blast
  have "take 11 (h @ r) = take 11 h" using hl by simp
  then have b: "take 11 (h @ r) \<in> set first_line_heads" using hh by (simp only:)
  have c: "last (h @ r) = CHR '';''" using r(3,4) by simp
  have a: "11 \<le> length (h @ r)" using hl by simp
  have "occurs_at ''import'' (h @ r) 0"
    using head_prefix_line[OF first_head_import[OF hh]] by (simp add: occurs_at_def)
  moreover have "CHR 0x0A \<notin> set (drop 0 (h @ r))" using hn r(1) by simp
  ultimately have w5: "\<exists>t. occurs_at ''import'' (h @ r) t \<and> CHR 0x0A \<notin> set (drop t (h @ r))"
    by blast
  show ?thesis
    unfolding import_like_def using a b c w1 w3 w5 by blast
qed

lemma import_like_two:
  assumes hl: "11 \<le> length h" and hh: "take 11 h \<in> set first_line_heads"
    and hn: "CHR 0x0A \<notin> set h" and ho: "last_occ ''import '' h = Some 0"
    and r: "CHR 0x0A \<notin> set r" "CHR '' '' \<notin> set r"
    and hl': "11 \<le> length h'" and hh': "take 11 h' \<in> set second_line_heads"
    and hn': "CHR 0x0A \<notin> set h'" and ho': "last_occ ''import '' h' = Some 0"
    and r': "CHR 0x0A \<notin> set r'" "CHR '' '' \<notin> set r'" "r' \<noteq> []" "last r' = CHR '';''"
  shows "import_like ((h @ r) @ CHR 0x0A # (h' @ r'))"
proof -
  let ?U = "h @ r" and ?V = "h' @ r'"
  let ?s = "?U @ CHR 0x0A # ?V"
  have nU: "CHR 0x0A \<notin> set ?U" using hn r(1) by simp
  have nV: "CHR 0x0A \<notin> set ?V" using hn' r'(1) by simp
  have nl_pos: "k = length ?U" if "k < length ?s" "?s ! k = CHR 0x0A" for k
  proof (rule ccontr)
    assume "k \<noteq> length ?U"
    then consider "k < length ?U" | "length ?U < k" by linarith
    then show False
    proof cases
      case 1
      then have "?s ! k = ?U ! k" by (simp only: nth_append if_True)
      with that(2) 1 nU show False by (metis nth_mem)
    next
      case 2
      then obtain d where d: "k = length ?U + Suc d" by (metis less_iff_Suc_add add_Suc_right)
      then have "?s ! k = ?V ! d" by (simp only: nth_append_length_plus nth_Cons_Suc)
      moreover have "d < length ?V" using that(1) d by simp
      ultimately show False using that(2) nV by (metis nth_mem)
    qed
  qed
  have w1: "\<forall>k<length ?s. ?s ! k = CHR 0x0A \<longrightarrow>
             Suc k + 11 \<le> length ?s \<and> take 11 (drop (Suc k) ?s) \<in> set second_line_heads"
  proof (intro allI impI)
    fix k assume a: "k < length ?s" "?s ! k = CHR 0x0A"
    from nl_pos[OF a] have k: "k = length ?U" .
    have d: "drop (Suc k) ?s = ?V" unfolding k by simp
    have t: "take 11 ?V = take 11 h'" using hl' by simp
    have l: "Suc k + 11 \<le> length ?s" unfolding k using hl' by simp
    have e: "take 11 (drop (Suc k) ?s) = take 11 h'" by (simp only: d t)
    show "Suc k + 11 \<le> length ?s
        \<and> take 11 (drop (Suc k) ?s) \<in> set second_line_heads"
    proof
      show "Suc k + 11 \<le> length ?s" by (rule l)
      show "take 11 (drop (Suc k) ?s) \<in> set second_line_heads" by (simp only: e hh')
    qed
  qed
  have w3: "\<forall>j. occurs_at ''import '' ?s j \<longrightarrow> j = 0 \<or> ?s ! (j - 1) = CHR 0x0A"
  proof (intro allI impI)
    fix j assume o: "occurs_at ''import '' ?s j"
    have "?s ! length ?U = CHR 0x0A" by (simp only: nth_append_length)
    then have "?s ! length ?U \<notin> set ''import ''" by simp
    moreover have "length ?U < length ?s" by simp
    ultimately consider "j + length ''import '' \<le> length ?U" | "length ?U < j"
      using barrier_char[OF o] by blast
    then show "j = 0 \<or> ?s ! (j - 1) = CHR 0x0A"
    proof cases
      case 1
      with o have "occurs_at ''import '' ?U j" by (simp only: occurs_at_append_left)
      from line_import_at_start[OF ho r(2) this] show ?thesis by simp
    next
      case 2
      then obtain d where d: "j = length (?U @ [CHR 0x0A]) + d"
        by (metis less_iff_Suc_add add_Suc_right add_Suc length_append_singleton)
      have "occurs_at ''import '' ((?U @ [CHR 0x0A]) @ ?V) j" using o by simp
      then have "occurs_at ''import '' ?V d" unfolding d by (simp only: occurs_at_append_right)
      from line_import_at_start[OF ho' r'(2) this] have "d = 0" .
      with d have "j - 1 = length ?U" by simp
      then have "?s ! (j - 1) = CHR 0x0A" by (simp only: nth_append_length)
      then show ?thesis by blast
    qed
  qed
  have "take 11 ?s = take 11 h" using hl by simp
  then have b: "take 11 ?s \<in> set first_line_heads" using hh by (simp only:)
  have c: "last ?s = CHR '';''" using r'(3,4) by simp
  have a: "11 \<le> length ?s" using hl by simp
  have "occurs_at ''import'' ((?U @ [CHR 0x0A]) @ ?V) (length (?U @ [CHR 0x0A]) + 0)"
    unfolding occurs_at_append_right
    using head_prefix_line[OF second_head_import[OF hh']] by (simp add: occurs_at_def)
  then have "occurs_at ''import'' ?s (Suc (length ?U))" by simp
  moreover have "CHR 0x0A \<notin> set (drop (Suc (length ?U)) ?s)" using nV by simp
  ultimately have w5: "\<exists>t. occurs_at ''import'' ?s t \<and> CHR 0x0A \<notin> set (drop t ?s)"
    by blast
  show ?thesis
    unfolding import_like_def using a b c w1 w3 w5 by blast
qed

lemma head_facts:
  \<open>last_occ ''import '' ''import NextAuthProvider from "'' = Some 0\<close>
  \<open>last_occ ''import '' ''import TrpcProvider from "'' = Some 0\<close>
  \<open>last_occ ''import '' ''import { cookies } from "'' = Some 0\<close>
  \<open>last_occ ''import '' ''import { Toaster } from "'' = Some 0\<close>
  \<open>last_occ ''import '' ''import { ClerkProvider } from "'' = Some 0\<close>
  \<open>last_occ ''import '' ''import Navbar from "'' = Some 0\<close>
  \<open>last_occ ''import '' ''import Sidebar from "'' = Some 0\<close>
  \<open>last_occ ''import '' ''import { ThemeProvider } from "'' = Some 0\<close>
  by code_simp+

lemma path_ok_rest:
  assumes "path_ok P" "CHR 0x0A \<notin> set T" "CHR '' '' \<notin> set T"
  shows "CHR 0x0A \<notin> set (P @ T)" "CHR '' '' \<notin> set (P @ T)"
  using assms path_ok_chars(1,2)[OF assms(1)] by simp_all

lemma import_like_statement:
  assumes "config_ok cfg"
  shows "import_like (importStatement cfg p)"
proof -
  from assms have ok: "path_ok (alias cfg)" "path_ok (authProviderComponent cfg)"
    "path_ok (trpcProvider cfg)" "path_ok (navbarComponent cfg)" "path_ok (sidebarComponent cfg)"
    by (simp_all add: config_ok_def)
  show ?thesis
  proof (cases p)
    case NextAuthProvider
    have eq: \<open>importStatement cfg p
        = ''import NextAuthProvider from "'' @ (authProviderComponent cfg @ ''";'')\<close>
      using NextAuthProvider by simp
    show ?thesis unfolding eq
      by (rule import_like_one)
        (simp_all add: first_line_heads_def head_facts path_ok_chars[OF ok(2)])
  next
    case TrpcProvider
    have eq: \<open>importStatement cfg p
        = (''import TrpcProvider from "'' @ (trpcProvider cfg @ ''";''))
          @ CHR 0x0A # (''import { cookies } from "'' @ ''next/headers";'')\<close>
      using TrpcProvider by simp
    show ?thesis unfolding eq
      by (rule import_like_two)
        (simp_all add: first_line_heads_def second_line_heads_def head_facts
          path_ok_chars[OF ok(3)])
  next
    case ShadcnToast
    have eq: \<open>importStatement cfg p
        = ''import { Toaster } from "'' @ (alias cfg @ ''/components/ui/toaster";'')\<close>
      using ShadcnToast by simp
    show ?thesis unfolding eq
      by (rule import_like_one)
        (simp_all add: first_line_heads_def head_facts path_ok_chars[OF ok(1)])
  next
    case ClerkProvider
    have eq: \<open>importStatement cfg p
        = ''import { ClerkProvider } from "'' @ ''@clerk/nextjs";''\<close>
      using ClerkProvider by simp
    show ?thesis unfolding eq
      by (rule import_like_one) (simp_all add: first_line_heads_def head_facts)
  next
    case Navbar
    have eq: \<open>importStatement cfg p
        = (''import Navbar from "'' @ (navbarComponent cfg @ ''";''))
          @ CHR 0x0A # (''import Sidebar from "'' @ (sidebarComponent cfg @ ''";''))\<close>
      using Navbar by simp
    show ?thesis unfolding eq
      by (rule import_like_two)
        (simp_all add: first_line_heads_def second_line_heads_def head_facts
          path_ok_chars[OF ok(4)] path_ok_chars[OF ok(5)])
  next
    case ThemeProvider
    have eq: \<open>importStatement cfg p
        = ''import { ThemeProvider } from "'' @ (alias cfg @ ''/components/ThemeProvider";'')\<close>
      using ThemeProvider by simp
    show ?thesis unfolding eq
      by (rule import_like_one)
        (simp_all add: first_line_heads_def head_facts path_ok_chars[OF ok(1)])
  qed
qed

lemma import_head_inj:
  assumes "take 11 (importStatement cfg p) = take 11 (importStatement cfg q)"
  shows "p = q"
  using assms by (cases p; cases q; simp)

text \<open>An inserted import statement creates no occurrence of another import statement,
  and exactly one of itself.\<close>

lemma import_insert_other:
  assumes "config_ok cfg" "p \<noteq> q" "X = [] \<or> last X = CHR 0x0A"
  shows "no_touch (importStatement cfg p) X (importStatement cfg q @ ''\<newline>'') Y"
  unfolding no_touch_def
proof (intro allI impI)
  fix pos
  assume "occurs_at (importStatement cfg p) (X @ (importStatement cfg q @ ''\<newline>'') @ Y) pos"
  from import_insert_cases[OF import_like_statement[OF assms(1)]
      import_like_statement[OF assms(1)] assms(3) this]
    import_head_inj[of cfg p q] assms(2)
  show "pos + length (importStatement cfg p) \<le> length X
      \<or> length X + length (importStatement cfg q @ ''\<newline>'') \<le> pos"
    by blast
qed

lemma import_insert_self:
  assumes "config_ok cfg" "X = [] \<or> last X = CHR 0x0A"
    and "occurs_at (importStatement cfg p) (X @ (importStatement cfg p @ ''\<newline>'') @ Y) pos"
  shows "pos + length (importStatement cfg p) \<le> length X
      \<or> length X + length (importStatement cfg p @ ''\<newline>'') \<le> pos \<or> pos = length X"
  using import_insert_cases[OF import_like_statement[OF assms(1)]
      import_like_statement[OF assms(1)] assms(2) assms(3)]
  by blast

text \<open>The insertion point is the start of the document, or it follows a line break that
  lies behind every occurrence of the word import.\<close>

lemma insertion_point:
  fixes d :: string
  defines "n \<equiv> nat (nextLineAfterLastImport d)"
  shows "n = 0 \<or> (0 < n \<and> n \<le> length d \<and> d ! (n - 1) = CHR 0x0A
                   \<and> (\<forall>q. occurs_at ''import'' d q \<longrightarrow> q < n))"
proof -
  define k where "k = nat (min (max (importInsertionPoint d) 0) (int (length d)))"
  have kl: "k \<le> length d" by (simp add: k_def)
  show ?thesis
  proof (cases "first_occ ''\<newline>'' (drop k d)")
    case None
    then have "nextLineAfterLastImport d = 0"
      by (simp add: nextLineAfterLastImport_def js_indexOf_def k_def[symmetric])
    then show ?thesis by (simp add: n_def)
  next
    case (Some i)
    then have nl: "nextLineAfterLastImport d = int (k + i) + 1"
      by (simp add: nextLineAfterLastImport_def js_indexOf_def k_def[symmetric])
    then have n: "n = k + i + 1" by (simp add: n_def)
    from first_occ_bound[OF Some] have b: "k + i + 1 \<le> length d" using kl by simp
    from Some have "occurs_at ''\<newline>'' (drop k d) i" by (simp add: first_occ_Some_iff)
    from occurs_at_nth[OF this, of 0] have "drop k d ! i = CHR 0x0A" by simp
    then have c: "d ! (k + i) = CHR 0x0A" using b by simp
    have "q < n" if o: "occurs_at ''import'' d q" for q
    proof (cases "last_occ ''import'' d")
      case None
      with o show ?thesis by (simp add: last_occ_None_iff)
    next
      case (Some l)
      then have "occurs_at ''import'' d l" "\<forall>j>l. \<not> occurs_at ''import'' d j"
        by (simp_all add: last_occ_Some_iff)
      with o have "q \<le> l" "l \<le> length d" by (auto simp: not_less occurs_at_def)
      moreover have "importInsertionPoint d = int l"
        using Some by (simp add: importInsertionPoint_def js_lastIndexOf_def)
      ultimately have "k = l" by (simp add: k_def)
      with \<open>q \<le> l\<close> n show ?thesis by simp
    qed
    with n b c show ?thesis by simp
  qed
qed

lemma beforeImport_boundary: "beforeImport d = [] \<or> last (beforeImport d) = CHR 0x0A"
proof -
  define n where "n = nat (nextLineAfterLastImport d)"
  have "n = 0 \<or> (0 < n \<and> n \<le> length d \<and> d ! (n - 1) = CHR 0x0A)"
    using insertion_point[of d] unfolding n_def by blast
  then consider "n = 0" | "0 < n" "n \<le> length d" "d ! (n - 1) = CHR 0x0A"
    by blast
  then show ?thesis
  proof cases
    case 1
    then show ?thesis by (simp add: beforeImport_take n_def)
  next
    case 2
    then have "take n d \<noteq> []" by auto
    then have "last (take n d) = take n d ! (length (take n d) - 1)" by (rule last_conv_nth)
    also have "\<dots> = d ! (n - 1)" using 2 by simp
    finally show ?thesis using 2 by (simp add: beforeImport_take n_def)
  qed
qed

lemma afterImport_no_import:
  assumes "beforeImport d \<noteq> []"
  shows "\<not> occurs_at ''import'' (afterImport d) q"
proof
  assume o: "occurs_at ''import'' (afterImport d) q"
  define n where "n = nat (nextLineAfterLastImport d)"
  from assms have "n \<noteq> 0" by (auto simp: beforeImport_take n_def)
  with insertion_point[of d] have a: "\<forall>q. occurs_at ''import'' d q \<longrightarrow> q < n"
    unfolding n_def by blast
  have "occurs_at ''import'' (beforeImport d @ afterImport d) (length (beforeImport d) + q)"
    using o by (simp only: occurs_at_append_right)
  then have "occurs_at ''import'' d (length (beforeImport d) + q)" by (simp add: before_after)
  moreover have "length (beforeImport d) = n"
    using nextLine_nat_le[of d] by (simp add: beforeImport_take n_def)
  ultimately show False using a by fastforce
qed

text \<open>An import statement is never cut by the insertion point.\<close>

lemma import_not_cut:
  assumes "import_like P"
  shows "no_touch P (beforeImport d) [] (afterImport d)"
  unfolding no_touch_def
proof (intro allI impI, rule ccontr)
  fix q
  assume o: "occurs_at P (beforeImport d @ [] @ afterImport d) q"
    and neg: "\<not> (q + length P \<le> length (beforeImport d)
                 \<or> length (beforeImport d) + length ([]::string) \<le> q)"
  define n where "n = nat (nextLineAfterLastImport d)"
  have ln: "length (beforeImport d) = n"
    using nextLine_nat_le[of d] by (simp add: beforeImport_take n_def)
  from o have od: "occurs_at P d q" by (simp add: before_after)
  from neg ln have c: "q < n" "n < q + length P" by simp_all
  then have "n \<noteq> 0" by simp
  with insertion_point[of d] have nl: "d ! (n - 1) = CHR 0x0A"
    and a: "\<forall>q. occurs_at ''import'' d q \<longrightarrow> q < n"
    unfolding n_def by blast+
  define k where "k = n - 1 - q"
  have k: "k < length P" "q + k = n - 1" "q + Suc k = n" using c by (simp_all add: k_def)
  from occurs_at_nth[OF od k(1)] k(2) nl have "P ! k = CHR 0x0A" by simp
  with assms k(1) have w: "Suc k + 11 \<le> length P"
    "take 11 (drop (Suc k) P) \<in> set second_line_heads"
    unfolding import_like_def by blast+
  from second_head_import[OF w(2)] have "prefix ''import '' (drop (Suc k) P)"
    using take_is_prefix prefix_order.trans by blast
  then have "prefix ''import'' (drop (Suc k) P)"
    using prefix_order.trans[of "''import''" "''import ''"] by simp
  moreover from od obtain zs where "drop q d = P @ zs"
    by (auto simp: occurs_at_def prefix_def)
  then have "drop (Suc k) (drop q d) = drop (Suc k) P @ zs" using k(1) by simp
  then have "drop n d = drop (Suc k) P @ zs" using k(3) by (simp add: add.commute)
  then have "prefix (drop (Suc k) P) (drop n d)" by simp
  ultimately have "prefix ''import'' (drop n d)" by (rule prefix_order.trans)
  moreover have "n \<le> length d" using nextLine_nat_le[of d] by (simp add: n_def)
  ultimately have "occurs_at ''import'' d n" by (simp add: occurs_at_def)
  with a show False by blast
qed

lemma once_count: "once pat s \<Longrightarrow> count_occ pat s = 1"
  unfolding once_def using count_occ_one by blast

lemma once_swap_middle:
  assumes ne: "pat \<noteq> []"
    and old: "no_touch pat X R Y" and new: "no_touch pat X R' Y"
    and o: "once pat (X @ R @ Y)"
  shows "once pat (X @ R' @ Y)"
proof -
  from o have "js_includes (X @ R @ Y) pat" "at_most_once pat (X @ R @ Y)"
    by (simp_all add: once_def js_includes_iff)
  then have "js_includes (X @ R' @ Y) pat" "at_most_once pat (X @ R' @ Y)"
    using includes_swap_middle[OF old] at_most_once_swap_middle[OF ne new] by blast+
  then show ?thesis by (simp add: once_def js_includes_iff)
qed

lemma replacement_facts:
  fixes p :: provider and nav :: bool
  defines "rt \<equiv> replacementText p (rootChildrenText nav)"
  shows "2 \<le> length rt" "\<not> sublist ''im'' rt" "last rt \<noteq> CHR ''i''" "rt ! 0 \<noteq> CHR '';''"
    "[rt ! 0, rt ! 1] = ''\<newline><'' \<or> [rt ! 0, rt ! 1] = ''<d'' \<or> [rt ! 0, rt ! 1] = ''{c''"
  unfolding rt_def
  by (cases p; cases nav;
      simp add: rootChildrenText_def children_anchor_def navigation_block_def
        sublist_Cons_right)+

lemma import_length: "2 \<le> length (importStatement cfg p)"
  by (cases p) simp_all

lemma import_not_Nil: "importStatement cfg p \<noteq> []"
  using import_length[of cfg p] by auto

lemma import_no_pairs:
  assumes "config_ok cfg"
  shows "\<not> sublist ''\<newline><'' (importStatement cfg p)" "\<not> sublist ''<d'' (importStatement cfg p)"
    "\<not> sublist ''{c'' (importStatement cfg p)"
proof -
  have "CHR ''<'' \<notin> set (importStatement cfg p)" by (rule import_no_lt[OF assms])
  then show "\<not> sublist ''\<newline><'' (importStatement cfg p)"
    by (auto dest: set_mono_sublist)
  show "\<not> sublist ''<d'' (importStatement cfg p)"
    by (rule not_in_set_no_pair[OF import_no_lt[OF assms]])
  show "\<not> sublist ''{c'' (importStatement cfg p)" by (rule import_no_brace_c[OF assms])
qed

lemma import_avoids_replacement:
  assumes "config_ok cfg"
  shows "no_touch (importStatement cfg q) X (replacementText p (rootChildrenText nav)) Y"
proof (rule region_no_touch[OF import_im])
  let ?rt = "replacementText p (rootChildrenText nav)"
  show "2 \<le> length ?rt" by (rule replacement_facts)
  show "\<not> sublist [?rt ! 0, ?rt ! 1] (importStatement cfg q)"
    using replacement_facts(5)[of p nav] import_no_pairs[OF assms, of q] by auto
  show "last (importStatement cfg q) \<noteq> ?rt ! 0"
    using replacement_facts(4)[of p nav] by (simp add: import_last)
  show "\<not> sublist ''im'' ?rt" by (rule replacement_facts)
  show "last ?rt \<noteq> CHR ''i''" by (rule replacement_facts)
qed

lemma anchor_facts2:
  "2 \<le> length (searchValue nav)"
  "[searchValue nav ! 0, searchValue nav ! 1] = ''<d'' \<or> [searchValue nav ! 0, searchValue nav ! 1] = ''{c''"
  "searchValue nav ! 0 \<noteq> CHR '';''" "\<not> sublist ''im'' (searchValue nav)"
  "last (searchValue nav) \<noteq> CHR ''i''" "searchValue nav \<noteq> []"
  by (cases nav; simp add: searchValue_def children_anchor_def navigation_block_def
      sublist_Cons_right)+

lemma import_avoids_anchor:
  assumes "config_ok cfg"
  shows "no_touch (importStatement cfg q) X (searchValue nav) Y"
proof (rule region_no_touch[OF import_im])
  let ?sv = "searchValue nav"
  show "2 \<le> length ?sv" by (rule anchor_facts2)
  show "\<not> sublist [?sv ! 0, ?sv ! 1] (importStatement cfg q)"
    using anchor_facts2(2)[of nav] import_no_pairs[OF assms, of q] by auto
  show "last (importStatement cfg q) \<noteq> ?sv ! 0"
    using anchor_facts2(3)[of nav] by (simp add: import_last)
  show "\<not> sublist ''im'' ?sv" by (rule anchor_facts2)
  show "last ?sv \<noteq> CHR ''i''" by (rule anchor_facts2)
qed

text \<open>What a replacement does to a pattern that can touch neither the text replaced nor
  the text put in its place.\<close>

lemma replace_shape:
  assumes "sv \<noteq> []"
  shows "js_replace M sv rt = M
         \<or> (\<exists>X Y. M = X @ sv @ Y \<and> js_replace M sv rt = X @ rt @ Y
                  \<and> first_occ sv M = Some (length X))"
proof (cases "first_occ sv M")
  case None
  then show ?thesis by (simp add: js_replace_def)
next
  case (Some i)
  let ?X = "take i M" and ?Y = "drop (i + length sv) M"
  from first_occ_split(1)[OF Some assms] have M: "M = ?X @ sv @ ?Y" .
  have "i \<le> length M" using first_occ_bound[OF Some] by simp
  then have l: "length ?X = i" by simp
  have "js_replace M sv rt = ?X @ rt @ ?Y" using Some by (simp add: js_replace_def)
  with M l Some show ?thesis by metis
qed

lemma replace_includes_back:
  assumes "sv \<noteq> []" and "\<And>X Y. no_touch pat X rt Y"
    and "js_includes (js_replace M sv rt) pat"
  shows "js_includes M pat"
  using replace_shape[OF assms(1), of M rt] assms(2,3) includes_swap_middle by metis

lemma replace_once:
  assumes "sv \<noteq> []" "pat \<noteq> []"
    and "\<And>X Y. no_touch pat X sv Y" and "\<And>X Y. no_touch pat X rt Y"
    and "once pat M"
  shows "once pat (js_replace M sv rt)"
  using replace_shape[OF assms(1), of M rt] assms(2-5) once_swap_middle by metis

lemma modified_eq:
  "modifiedImportContent cfg p d
     = beforeImport d @ (importStatement cfg p @ ''\<newline>'') @ afterImport d"
  by (simp add: modifiedImportContent_def)

lemma doc_eq: "d = beforeImport d @ [] @ afterImport d"
  by (simp add: before_after)

lemma step_other_import_back:
  assumes cfg: "config_ok cfg" and pq: "q \<noteq> p"
    and inc: "js_includes (newLayoutContent cfg p d) (importStatement cfg q)"
  shows "js_includes d (importStatement cfg q)"
proof -
  have "js_includes (modifiedImportContent cfg p d) (importStatement cfg q)"
    using inc unfolding newLayoutContent_def
    by (rule replace_includes_back[OF anchor_facts2(6) import_avoids_replacement[OF cfg]])
  then have "js_includes (beforeImport d @ (importStatement cfg p @ ''\<newline>'') @ afterImport d)
      (importStatement cfg q)" by (simp only: modified_eq)
  then have "js_includes (beforeImport d @ [] @ afterImport d) (importStatement cfg q)"
    by (rule includes_swap_middle[OF import_insert_other[OF cfg pq beforeImport_boundary]])
  then show ?thesis by (simp add: before_after)
qed

lemma step_other_import_once:
  assumes cfg: "config_ok cfg" and pq: "q \<noteq> p"
    and o: "once (importStatement cfg q) d"
  shows "once (importStatement cfg q) (newLayoutContent cfg p d)"
proof -
  from o have "once (importStatement cfg q) (beforeImport d @ [] @ afterImport d)"
    by (simp add: before_after)
  then have "once (importStatement cfg q)
      (beforeImport d @ (importStatement cfg p @ ''\<newline>'') @ afterImport d)"
    by (rule once_swap_middle[OF import_not_Nil
          import_not_cut[OF import_like_statement[OF cfg]]
          import_insert_other[OF cfg pq beforeImport_boundary]])
  then have "once (importStatement cfg q) (modifiedImportContent cfg p d)"
    by (simp only: modified_eq)
  then show ?thesis unfolding newLayoutContent_def
    by (rule replace_once[OF anchor_facts2(6) import_not_Nil
          import_avoids_anchor[OF cfg] import_avoids_replacement[OF cfg]])
qed

lemma step_own_import_once:
  assumes cfg: "config_ok cfg"
    and ni: "\<not> js_includes d (importStatement cfg p)"
  shows "once (importStatement cfg p) (newLayoutContent cfg p d)"
proof -
  let ?imp = "importStatement cfg p"
  let ?B = "beforeImport d" and ?A = "afterImport d"
  let ?M = "?B @ (?imp @ ''\<newline>'') @ ?A"
  have here: "occurs_at ?imp ?M (length ?B)"
    using occurs_at_self[of ?imp ?B "''\<newline>'' @ ?A"] by simp
  have only: "pos = length ?B" if o: "occurs_at ?imp ?M pos" for pos
  proof -
    from import_insert_self[OF cfg beforeImport_boundary o]
    consider "pos + length ?imp \<le> length ?B \<or> length ?B + length (?imp @ ''\<newline>'') \<le> pos"
      | "pos = length ?B" by blast
    then show ?thesis
    proof cases
      case 1
      from occurs_at_swap_middle[OF o 1, of "[]"]
      have "js_includes (?B @ [] @ ?A) ?imp" unfolding js_includes_iff by blast
      with ni show ?thesis by (simp add: before_after)
    qed
  qed
  have "once ?imp ?M"
    unfolding once_def at_most_once_def using here only by blast
  then have "once ?imp (modifiedImportContent cfg p d)" by (simp only: modified_eq)
  then show ?thesis unfolding newLayoutContent_def
    by (rule replace_once[OF anchor_facts2(6) import_not_Nil
          import_avoids_anchor[OF cfg] import_avoids_replacement[OF cfg]])
qed

lemma replacementText_wrapping:
  assumes "wrapping p"
  shows "replacementText p x
           = (CHR 0x0A # wrapper_open p) @ x @ (wrapper_close p @ [CHR 0x0A])"
  using assms by (cases p) (simp_all add: wrapping_def wrapper_close_def)

lemma wrapper_interior:
  assumes "wrapping p"
  shows "CHR 0x0A \<notin> set (wrapper_open p @ children_anchor @ wrapper_close p)"
    "\<not> sublist ''<Navbar />'' (wrapper_open p @ children_anchor @ wrapper_close p)"
    "first_occ children_anchor (CHR 0x0A # wrapper_open p @ children_anchor @ wrapper_close p @ [CHR 0x0A])
       = Some (length (CHR 0x0A # wrapper_open p))"
  using assms
  by (cases p; simp add: wrapping_def wrapper_close_def children_anchor_def sublist_Cons_right)+

lemma nlfree_not_cut:
  assumes "CHR 0x0A \<notin> set pat"
  shows "no_touch pat (beforeImport d) [] (afterImport d)"
  unfolding no_touch_def
proof (intro allI impI, rule ccontr)
  fix q
  assume o: "occurs_at pat (beforeImport d @ [] @ afterImport d) q"
    and neg: "\<not> (q + length pat \<le> length (beforeImport d)
                 \<or> length (beforeImport d) + length ([]::string) \<le> q)"
  define n where "n = nat (nextLineAfterLastImport d)"
  have ln: "length (beforeImport d) = n"
    using nextLine_nat_le[of d] by (simp add: beforeImport_take n_def)
  from o have od: "occurs_at pat d q" by (simp add: before_after)
  from neg ln have c: "q < n" "n < q + length pat" by simp_all
  then have "n \<noteq> 0" by simp
  with insertion_point[of d] have nl: "d ! (n - 1) = CHR 0x0A" and le: "n \<le> length d"
    unfolding n_def by blast+
  have "n - 1 < length d" using le \<open>n \<noteq> 0\<close> by simp
  moreover have "d ! (n - 1) \<notin> set pat" using nl assms by simp
  ultimately have "q + length pat \<le> n - 1 \<or> n - 1 < q" using barrier_char[OF od] by blast
  with c show False by linarith
qed

text \<open>A pattern without line break that does not occur inside a wrapper cannot touch it.\<close>

lemma nlfree_avoids_wrapper:
  assumes pat: "CHR 0x0A \<notin> set pat" and I: "\<not> sublist pat I"
  shows "no_touch pat X (CHR 0x0A # I @ [CHR 0x0A]) Y"
  unfolding no_touch_def
proof (intro allI impI, rule ccontr)
  fix q
  let ?R = "CHR 0x0A # I @ [CHR 0x0A]"
  let ?s = "X @ ?R @ Y"
  assume o: "occurs_at pat ?s q"
    and neg: "\<not> (q + length pat \<le> length X \<or> length X + length ?R \<le> q)"
  have "?s ! length X = CHR 0x0A" by (simp add: nth_append)
  then have "?s ! length X \<notin> set pat" using pat by simp
  moreover have "length X < length ?s" by simp
  ultimately have a: "q + length pat \<le> length X \<or> length X < q"
    using barrier_char[OF o] by blast
  have "?s = (X @ CHR 0x0A # I) @ CHR 0x0A # Y" by simp
  then have "?s ! (length X + length I + 1) = CHR 0x0A"
    by (metis add.assoc length_append length_Cons nth_append_length One_nat_def add_Suc_right
        add.right_neutral)
  then have "?s ! (length X + length I + 1) \<notin> set pat" using pat by simp
  moreover have "length X + length I + 1 < length ?s" by simp
  ultimately have b: "q + length pat \<le> length X + length I + 1 \<or> length X + length I + 1 < q"
    using barrier_char[OF o] by blast
  from a b neg have c: "length X < q" "q + length pat \<le> length X + length I + 1" by simp_all
  define j where "j = q - length X - 1"
  have q: "q = length (X @ [CHR 0x0A]) + j" using c by (simp add: j_def)
  have "occurs_at pat ((X @ [CHR 0x0A]) @ (I @ CHR 0x0A # Y)) q" using o by simp
  then have "occurs_at pat (I @ CHR 0x0A # Y) j" unfolding q by (simp only: occurs_at_append_right)
  moreover have "j + length pat \<le> length I" using c by (simp add: j_def)
  ultimately have "occurs_at pat I j" by (simp only: occurs_at_append_left)
  then have "sublist pat I"
    by (metis occurs_at_def prefix_def sublist_def append_take_drop_id append.assoc)
  with I show False by blast
qed

lemma replace_found:
  assumes "first_occ sv M = Some i" "sv \<noteq> []"
  shows "\<exists>X Y. M = X @ sv @ Y \<and> js_replace M sv rt = X @ rt @ Y \<and> length X = i
               \<and> (\<forall>q. \<not> occurs_at sv X q)"
proof -
  let ?X = "take i M" and ?Y = "drop (i + length sv) M"
  from first_occ_split[OF assms] have M: "M = ?X @ sv @ ?Y" and n: "\<forall>q. \<not> occurs_at sv ?X q"
    by blast+
  have "i \<le> length M" using first_occ_bound[OF assms(1)] by simp
  then have l: "length ?X = i" by simp
  have "js_replace M sv rt = ?X @ rt @ ?Y" using assms(1) by (simp add: js_replace_def)
  with M l n show ?thesis by blast
qed

lemma marker_avoids_import:
  assumes "config_ok cfg"
  shows "no_touch ''<Navbar />'' X (importStatement cfg p @ ''\<newline>'') Y"
proof (rule region_no_touch[where a = "CHR ''<''" and b = "CHR ''N''"])
  let ?R = "importStatement cfg p @ ''\<newline>''"
  have l: "2 \<le> length (importStatement cfg p)" by (rule import_length)
  have i: "prefix ''im'' (importStatement cfg p)" by (rule import_im)
  then obtain r where r: "importStatement cfg p = CHR ''i'' # CHR ''m'' # r"
    by (auto simp: prefix_def)
  show "prefix ''<N'' ''<Navbar />''" by simp
  show "2 \<le> length ?R" using l by simp
  show "\<not> sublist [?R ! 0, ?R ! 1] ''<Navbar />''" unfolding r by (simp add: sublist_Cons_right)
  show "last ''<Navbar />'' \<noteq> ?R ! 0" unfolding r by simp
  have "CHR ''<'' \<notin> set ?R" using import_no_lt[OF assms, of p] by simp
  then show "\<not> sublist ''<N'' ?R" by (rule not_in_set_no_pair)
  show "last ?R \<noteq> CHR ''<''" by simp
qed

lemma children_avoids_import:
  assumes "config_ok cfg"
  shows "no_touch children_anchor X (importStatement cfg p @ ''\<newline>'') Y"
    and "no_touch children_anchor X (CHR 0x0A # importStatement cfg p) Y"
proof -
  let ?imp = "importStatement cfg p"
  have l: "2 \<le> length ?imp" by (rule import_length)
  obtain r where r: "?imp = CHR ''i'' # CHR ''m'' # r"
    using import_im[of cfg p] by (auto simp: prefix_def)
  have nc: "\<not> sublist ''{c'' ?imp" by (rule import_no_brace_c[OF assms])
  have la: "last ?imp = CHR '';''" by (rule import_last)
  show "no_touch children_anchor X (?imp @ ''\<newline>'') Y"
  proof (rule region_no_touch[OF anchor_facts(1)])
    show "2 \<le> length (?imp @ ''\<newline>'')" using l by simp
    show "\<not> sublist [(?imp @ ''\<newline>'') ! 0, (?imp @ ''\<newline>'') ! 1] children_anchor"
      unfolding r by (simp add: anchor_facts)
    show "last children_anchor \<noteq> (?imp @ ''\<newline>'') ! 0"
      unfolding r by (simp add: anchor_facts)
    show "\<not> sublist ''{c'' (?imp @ ''\<newline>'')"
      using nc la by (simp add: sublist_pair_append sublist_Cons_right)
    show "last (?imp @ ''\<newline>'') \<noteq> CHR ''{''" by simp
  qed
  show "no_touch children_anchor X (CHR 0x0A # ?imp) Y"
  proof (rule region_no_touch[OF anchor_facts(1)])
    show "2 \<le> length (CHR 0x0A # ?imp)" using l by simp
    have "CHR 0x0A \<notin> set children_anchor" by (simp add: children_anchor_def)
    then show "\<not> sublist [(CHR 0x0A # ?imp) ! 0, (CHR 0x0A # ?imp) ! 1] children_anchor"
      unfolding r by (simp add: not_in_set_no_pair)
    show "last children_anchor \<noteq> (CHR 0x0A # ?imp) ! 0" by (simp add: anchor_facts)
    show "\<not> sublist ''{c'' (CHR 0x0A # ?imp)" using nc by (simp add: sublist_Cons_right)
    show "last (CHR 0x0A # ?imp) \<noteq> CHR ''{''" using la r by simp
  qed
qed

lemma insert_keeps_wrapper:
  fixes s X I Y J :: string
  defines "W \<equiv> CHR 0x0A # I @ [CHR 0x0A]"
  assumes n: "n = 0 \<or> (0 < n \<and> n \<le> length s \<and> s ! (n - 1) = CHR 0x0A)"
    and s: "s = X @ W @ Y" and I: "CHR 0x0A \<notin> set I"
  shows "\<exists>P Q. take n s @ (J @ [CHR 0x0A]) @ drop n s = P @ W @ Q
          \<and> ((\<exists>m. P = take m X @ (J @ [CHR 0x0A]) @ drop m X)
               \<or> P = X @ (CHR 0x0A # J) @ [] \<or> P = X)"
proof -
  let ?ins = "J @ [CHR 0x0A]"
  have lW: "length W = length I + 2" by (simp add: W_def)
  consider "n \<le> length X" | "n = length X + 1"
    | "length X + 1 < n" "n < length X + length W" | "length X + length W \<le> n" by linarith
  then show ?thesis
  proof cases
    case 1
    then have "take n s @ ?ins @ drop n s = (take n X @ ?ins @ drop n X) @ W @ Y"
      unfolding s by simp
    then show ?thesis by blast
  next
    case 2
    have "take n s = X @ [CHR 0x0A]" unfolding s 2 by (simp add: W_def)
    moreover have "drop n s = I @ [CHR 0x0A] @ Y" unfolding s 2 by (simp add: W_def)
    ultimately have "take n s @ ?ins @ drop n s = (X @ (CHR 0x0A # J) @ []) @ W @ Y"
      by (simp add: W_def)
    then show ?thesis by blast
  next
    case 3
    then have "n \<noteq> 0" by simp
    with n have nl: "s ! (n - 1) = CHR 0x0A" by blast
    define j where "j = n - 2 - length X"
    have j: "j < length I" "n - 1 = length (X @ [CHR 0x0A]) + j" using 3 lW by (simp_all add: j_def)
    have "s = (X @ [CHR 0x0A]) @ (I @ CHR 0x0A # Y)" unfolding s by (simp add: W_def)
    then have "s ! (n - 1) = (I @ CHR 0x0A # Y) ! j"
      unfolding j(2) by (simp only: nth_append_length_plus)
    also have "\<dots> = I ! j" using j(1) by (simp add: nth_append)
    finally have "I ! j = CHR 0x0A" using nl by simp
    with j(1) I show ?thesis by (metis nth_mem)
  next
    case 4
    define m where "m = n - length X - length W"
    have n': "n = length (X @ W) + m" using 4 by (simp add: m_def)
    have "take n s = (X @ W) @ take m Y" unfolding s n' by (simp del: append_assoc add: append_assoc[symmetric])
    moreover have "drop n s = drop m Y" unfolding s n' by (simp del: append_assoc add: append_assoc[symmetric])
    ultimately have "take n s @ ?ins @ drop n s = X @ W @ (take m Y @ ?ins @ drop m Y)"
      by simp
    then show ?thesis by blast
  qed
qed

lemma marker_nlfree: "CHR 0x0A \<notin> set ''<Navbar />''" "CHR 0x0A \<notin> set children_anchor"
  "children_anchor \<noteq> []"
  by (simp_all add: children_anchor_def)

text \<open>One application to a document without navigation marker and without the import.\<close>

lemma wrap_step:
  assumes cfg: "config_ok cfg" and w: "wrapping p"
    and ch: "js_includes d children_anchor" and nb: "\<not> navbarExists d"
  shows "\<exists>X Y. modifiedImportContent cfg p d = X @ children_anchor @ Y
           \<and> newLayoutContent cfg p d = X @ replacementText p children_anchor @ Y
           \<and> (\<forall>q. \<not> occurs_at children_anchor X q)"
    and "\<not> navbarExists (newLayoutContent cfg p d)"
proof -
  let ?M = "modifiedImportContent cfg p d"
  let ?rt = "replacementText p children_anchor"
  have new: "newLayoutContent cfg p d = js_replace ?M children_anchor ?rt"
    using nb by (simp add: newLayoutContent_def searchValue_def rootChildrenText_def)
  from ch have "js_includes (beforeImport d @ [] @ afterImport d) children_anchor"
    by (simp add: before_after)
  then have "js_includes ?M children_anchor"
    unfolding modified_eq by (rule includes_swap_middle[OF nlfree_not_cut[OF marker_nlfree(2)]])
  then obtain i where "first_occ children_anchor ?M = Some i" by (auto simp: js_includes_def)
  from replace_found[OF this marker_nlfree(3), of ?rt]
  obtain X Y where XY: "?M = X @ children_anchor @ Y" "js_replace ?M children_anchor ?rt = X @ ?rt @ Y"
    "\<forall>q. \<not> occurs_at children_anchor X q" by blast
  then show "\<exists>X Y. ?M = X @ children_anchor @ Y
           \<and> newLayoutContent cfg p d = X @ ?rt @ Y
           \<and> (\<forall>q. \<not> occurs_at children_anchor X q)"
    unfolding new by blast
  show "\<not> navbarExists (newLayoutContent cfg p d)"
  proof
    assume "navbarExists (newLayoutContent cfg p d)"
    then have "js_includes (X @ ?rt @ Y) ''<Navbar />''"
      unfolding new XY(2) by (simp add: navbarExists_def)
    then have "js_includes
        (X @ (CHR 0x0A # (wrapper_open p @ children_anchor @ wrapper_close p) @ [CHR 0x0A]) @ Y)
        ''<Navbar />''"
      by (simp add: replacementText_wrapping[OF w])
    then have "js_includes (X @ children_anchor @ Y) ''<Navbar />''"
      by (rule includes_swap_middle[OF nlfree_avoids_wrapper[OF marker_nlfree(1)
              wrapper_interior(2)[OF w]]])
    then have "js_includes (beforeImport d @ (importStatement cfg p @ ''\<newline>'') @ afterImport d)
        ''<Navbar />''"
      using XY(1) by (simp only: modified_eq)
    then have "js_includes (beforeImport d @ [] @ afterImport d) ''<Navbar />''"
      by (rule includes_swap_middle[OF marker_avoids_import[OF cfg]])
    with nb show False by (simp add: before_after navbarExists_def)
  qed
qed

text \<open>
  C2 (as the code has it).  Take a configuration whose alias and import paths are free of
  blanks, line breaks, angle brackets and braces, two different wrapping providers A and
  B, and a layout that contains the children anchor, no navigation marker, and neither of
  the two import statements.  Applying A and then B writes twice; the final document
  holds A's wrapper around B's wrapper around the children anchor (B's element is the
  innermost one), no children anchor stands before that nest, and each of the two import
  statements occurs exactly once.
\<close>


theorem nested_wrappers:
  assumes cfg: "config_ok cfg" and wA: "wrapping A" and wB: "wrapping B" and AB: "A \<noteq> B"
    and f: "files s (layout_path cfg) = Some c"
    and ch: "js_includes c children_anchor" and nb: "\<not> js_includes c ''<Navbar />''"
    and nA: "\<not> js_includes c (importStatement cfg A)"
    and nB: "\<not> js_includes c (importStatement cfg B)"
  shows "apply_then (addContextProviderToLayout cfg A) (addContextProviderToLayout cfg B) s
           = Inr (replaceFile (layout_path cfg)
                    (newLayoutContent cfg B (newLayoutContent cfg A c))
                    (replaceFile (layout_path cfg) (newLayoutContent cfg A c) s))
         \<and> (\<exists>P Q. newLayoutContent cfg B (newLayoutContent cfg A c)
                     = P @ replacementText A (replacementText B children_anchor) @ Q
                   \<and> \<not> js_includes P children_anchor)
         \<and> count_occ (importStatement cfg A)
              (newLayoutContent cfg B (newLayoutContent cfg A c)) = 1
         \<and> count_occ (importStatement cfg B)
              (newLayoutContent cfg B (newLayoutContent cfg A c)) = 1"
proof -
  define D where "D = newLayoutContent cfg A c"
  define R where "R = newLayoutContent cfg B D"
  have nbc: "\<not> navbarExists c" using nb by (simp add: navbarExists_def)
  from wrap_step[OF cfg wA ch nbc]
  obtain X Y where XY: "D = X @ replacementText A children_anchor @ Y"
      "\<forall>q. \<not> occurs_at children_anchor X q"
    and nbD: "\<not> navbarExists D"
    unfolding D_def by blast
  let ?I = "wrapper_open A @ children_anchor @ wrapper_close A"
  let ?W = "CHR 0x0A # ?I @ [CHR 0x0A]"
  have W: "replacementText A children_anchor = ?W"
    by (simp add: replacementText_wrapping[OF wA])
  have DW: "D = X @ ?W @ Y" using XY(1) unfolding W .
  \<comment> \<open>the imports after the first application\<close>
  have nBD: "\<not> js_includes D (importStatement cfg B)"
    using step_other_import_back[OF cfg, of B A c] AB nB unfolding D_def by blast
  have oA: "once (importStatement cfg A) D"
    unfolding D_def by (rule step_own_import_once[OF cfg nA])
  \<comment> \<open>the second application\<close>
  have chD: "js_includes D children_anchor"
  proof -
    have "occurs_at children_anchor ((X @ CHR 0x0A # wrapper_open A) @ children_anchor
            @ (wrapper_close A @ CHR 0x0A # Y)) (length (X @ CHR 0x0A # wrapper_open A))"
      by (rule occurs_at_self)
    then show ?thesis unfolding DW js_includes_iff by auto
  qed
  define n where "n = nat (nextLineAfterLastImport D)"
  have M: "modifiedImportContent cfg B D
      = take n D @ (importStatement cfg B @ [CHR 0x0A]) @ drop n D"
    by (simp add: modified_eq beforeImport_take afterImport_drop n_def)
  have nn: "n = 0 \<or> (0 < n \<and> n \<le> length D \<and> D ! (n - 1) = CHR 0x0A)"
    using insertion_point[of D] unfolding n_def by blast
  from insert_keeps_wrapper[OF nn DW wrapper_interior(1)[OF wA], of "importStatement cfg B"]
  obtain P Q where PQ: "modifiedImportContent cfg B D = P @ ?W @ Q"
    and Pform: "(\<exists>m. P = take m X @ (importStatement cfg B @ [CHR 0x0A]) @ drop m X)
               \<or> P = X @ (CHR 0x0A # importStatement cfg B) @ [] \<or> P = X"
    unfolding M by blast
  have noP: "\<not> occurs_at children_anchor P q" for q
  proof
    assume o: "occurs_at children_anchor P q"
    from Pform consider m where "P = take m X @ (importStatement cfg B @ [CHR 0x0A]) @ drop m X"
      | "P = X @ (CHR 0x0A # importStatement cfg B) @ []" | "P = X" by blast
    then show False
    proof cases
      case 1
      have nt: "no_touch children_anchor (take m X) (importStatement cfg B @ ''\<newline>'') (drop m X)"
        by (rule children_avoids_import[OF cfg])
      from o have o': "occurs_at children_anchor
          (take m X @ (importStatement cfg B @ ''\<newline>'') @ drop m X) q" unfolding 1 .
      from occurs_at_swap_middle[OF o' no_touchD[OF nt o'], of "[]"] XY(2)
      show False by simp
    next
      case 2
      have nt: "no_touch children_anchor X (CHR 0x0A # importStatement cfg B) []"
        by (rule children_avoids_import[OF cfg])
      from o have o': "occurs_at children_anchor (X @ (CHR 0x0A # importStatement cfg B) @ []) q"
        unfolding 2 .
      from occurs_at_swap_middle[OF o' no_touchD[OF nt o'], of "[]"] XY(2)
      show False by simp
    next
      case 3
      with o XY(2) show False by blast
    qed
  qed
  have fo: "first_occ children_anchor (P @ ?W @ Q) = Some (length P + length (CHR 0x0A # wrapper_open A))"
  proof (rule first_occ_in_middle)
    show "\<not> occurs_at children_anchor P q" for q by (rule noP)
    show "q + length children_anchor \<le> length P \<or> length P \<le> q"
      if o: "occurs_at children_anchor (P @ ?W @ Q) q" for q
    proof -
      have "(P @ ?W @ Q) ! length P = CHR 0x0A" by (simp add: nth_append)
      then have b: "(P @ ?W @ Q) ! length P \<notin> set children_anchor"
        using marker_nlfree(2) by simp
      have a: "length P < length (P @ ?W @ Q)" by simp
      from barrier_char[OF o a b] show ?thesis by linarith
    qed
    show "first_occ children_anchor ?W = Some (length (CHR 0x0A # wrapper_open A))"
      using wrapper_interior(3)[OF wA] by simp
  qed
  have Meq: "modifiedImportContent cfg B D
      = (P @ CHR 0x0A # wrapper_open A) @ children_anchor @ (wrapper_close A @ CHR 0x0A # Q)"
    unfolding PQ by simp
  have fo': "first_occ children_anchor
      ((P @ CHR 0x0A # wrapper_open A) @ children_anchor @ (wrapper_close A @ CHR 0x0A # Q))
        = Some (length (P @ CHR 0x0A # wrapper_open A))"
    using fo by simp
  have "R = js_replace (modifiedImportContent cfg B D) children_anchor
              (replacementText B children_anchor)"
    using nbD by (simp add: R_def newLayoutContent_def searchValue_def rootChildrenText_def)
  also have "\<dots> = (P @ CHR 0x0A # wrapper_open A) @ replacementText B children_anchor
                      @ (wrapper_close A @ CHR 0x0A # Q)"
    unfolding Meq by (rule js_replace_at[OF fo'])
  also have "\<dots> = P @ replacementText A (replacementText B children_anchor) @ Q"
    by (simp add: replacementText_wrapping[OF wA])
  finally have shape: "R = P @ replacementText A (replacementText B children_anchor) @ Q" .
  have noP': "\<not> js_includes P children_anchor" using noP by (simp add: js_includes_iff)
  \<comment> \<open>the imports after the second application\<close>
  have cA: "count_occ (importStatement cfg A) R = 1"
    unfolding R_def using step_other_import_once[OF cfg AB oA] by (rule once_count)
  have cB: "count_occ (importStatement cfg B) R = 1"
    unfolding R_def using step_own_import_once[OF cfg nBD] by (rule once_count)
  \<comment> \<open>the two calls\<close>
  have 1: "addContextProviderToLayout cfg A s = Inr (replaceFile (layout_path cfg) D s)"
    using f nA by (simp add: addContextProviderToLayout_def D_def)
  have 2: "addContextProviderToLayout cfg B (replaceFile (layout_path cfg) D s)
      = Inr (replaceFile (layout_path cfg) R (replaceFile (layout_path cfg) D s))"
    using nBD by (simp add: addContextProviderToLayout_def replaceFile_def R_def)
  have "apply_then (addContextProviderToLayout cfg A) (addContextProviderToLayout cfg B) s
      = Inr (replaceFile (layout_path cfg) R (replaceFile (layout_path cfg) D s))"
    using 1 2 by (simp add: apply_then_def)
  with shape noP' cA cB show ?thesis unfolding R_def D_def by blast
qed

theorem nested_wrappers_witness:
  "config_ok example_config \<and> wrapping NextAuthProvider \<and> wrapping ClerkProvider
   \<and> NextAuthProvider \<noteq> ClerkProvider
   \<and> js_includes plain_layout children_anchor \<and> \<not> js_includes plain_layout ''<Navbar />''
   \<and> \<not> js_includes plain_layout (importStatement example_config NextAuthProvider)
   \<and> \<not> js_includes plain_layout (importStatement example_config ClerkProvider)
   \<and> apply_then (addContextProviderToLayout example_config NextAuthProvider)
        (addContextProviderToLayout example_config ClerkProvider)
        (fs_with example_config plain_layout)
       = Inr (replaceFile (layout_path example_config) plain_layout_nested
               (replaceFile (layout_path example_config) plain_layout_nextauth
                 (fs_with example_config plain_layout)))
   \<and> count_occ (importStatement example_config NextAuthProvider) plain_layout_nested = 1
   \<and> count_occ (importStatement example_config ClerkProvider) plain_layout_nested = 1"
proof -
  have w: "wrapping NextAuthProvider" "wrapping ClerkProvider" "NextAuthProvider \<noteq> ClerkProvider"
    by (simp_all add: wrapping_def)
  have f: "files (fs_with example_config plain_layout) (layout_path example_config)
             = Some plain_layout"
    by (simp add: fs_with_def)
  have h: "js_includes plain_layout children_anchor" "\<not> js_includes plain_layout ''<Navbar />''"
    "\<not> js_includes plain_layout (importStatement example_config NextAuthProvider)"
    "\<not> js_includes plain_layout (importStatement example_config ClerkProvider)"
    unfolding plain_layout_def by code_simp+
  have e1: "newLayoutContent example_config NextAuthProvider plain_layout = plain_layout_nextauth"
    unfolding plain_layout_def plain_layout_nextauth_def by code_simp
  have e2: "newLayoutContent example_config ClerkProvider plain_layout_nextauth
              = plain_layout_nested"
    unfolding plain_layout_nextauth_def plain_layout_nested_def by code_simp
  show ?thesis
    using example_config_ok w h
      nested_wrappers [OF example_config_ok w f h, unfolded e1 e2]
    by blast
qed

text \<open>The claim as the specification words it fails on a layout that contains the
  children anchor and no navigation marker but already imports the second provider: the
  second application returns at once, and its wrapper is not in the result.\<close>

theorem nested_wrappers_counterexample:
  \<open>js_includes clerk_import_layout children_anchor
   \<and> \<not> js_includes clerk_import_layout ''<Navbar />''
   \<and> apply_then (addContextProviderToLayout example_config NextAuthProvider)
        (addContextProviderToLayout example_config ClerkProvider)
        (fs_with example_config clerk_import_layout)
       = Inr (replaceFile (layout_path example_config) clerk_import_layout_nextauth
               (fs_with example_config clerk_import_layout))
   \<and> \<not> js_includes clerk_import_layout_nextauth ''<ClerkProvider>''\<close>
proof -
  have h: "js_includes clerk_import_layout children_anchor"
    "\<not> js_includes clerk_import_layout ''<Navbar />''"
    "\<not> js_includes clerk_import_layout (importStatement example_config NextAuthProvider)"
    unfolding clerk_import_layout_def by code_simp+
  have e: "newLayoutContent example_config NextAuthProvider clerk_import_layout
             = clerk_import_layout_nextauth"
    unfolding clerk_import_layout_def clerk_import_layout_nextauth_def by code_simp
  have i: "js_includes clerk_import_layout_nextauth (importStatement example_config ClerkProvider)"
    "\<not> js_includes clerk_import_layout_nextauth ''<ClerkProvider>''"
    unfolding clerk_import_layout_nextauth_def by code_simp+
  have 1: "addContextProviderToLayout example_config NextAuthProvider
             (fs_with example_config clerk_import_layout)
           = Inr (replaceFile (layout_path example_config) clerk_import_layout_nextauth
               (fs_with example_config clerk_import_layout))"
    using h(3) e by (simp add: addContextProviderToLayout_def fs_with_def)
  have 2: "addContextProviderToLayout example_config ClerkProvider
             (replaceFile (layout_path example_config) clerk_import_layout_nextauth
               (fs_with example_config clerk_import_layout))
           = Inr (replaceFile (layout_path example_config) clerk_import_layout_nextauth
               (fs_with example_config clerk_import_layout))"
    using i(1) by (simp add: addContextProviderToLayout_def replaceFile_def)
  show ?thesis using h(1,2) i(2) 1 2 by (simp add: apply_then_def)
qed

lemma navblock_marker:
  \<open>navigation_block
     = ''<div className="flex">\<newline><Sidebar />\<newline><main className="flex-1 md:p-8 pt-2 p-8">\<newline>''
       @ ''<Navbar />'' @ ''\<newline>{children}\<newline></main>\<newline></div>''\<close>
  \<open>first_occ ''<Navbar />'' navigation_block = Some 77\<close>
  \<open>last_occ ''<Navbar />'' navigation_block = Some 77\<close>
  \<open>length ''<div className="flex">\<newline><Sidebar />\<newline><main className="flex-1 md:p-8 pt-2 p-8">\<newline>'' = 77\<close>
  unfolding navigation_block_def by code_simp+

lemma block_includes_marker: "js_includes (X @ navigation_block @ Y) ''<Navbar />''"
proof -
  obtain u v where "navigation_block = u @ ''<Navbar />'' @ v"
    using navblock_marker(1) by blast
  then have "X @ navigation_block @ Y = (X @ u) @ ''<Navbar />'' @ (v @ Y)" by simp
  then show ?thesis using js_includes_self by metis
qed

lemma takeWhile_until:
  assumes "x \<notin> set Z"
  shows "takeWhile (\<lambda>y. y \<noteq> x) (Z @ x # W) = Z"
  using assms by (induction Z) auto

text \<open>When nothing behind an import statement holds the word import, the next import
  goes right behind that statement.\<close>

lemma nextLine_after_last_statement:
  assumes il: "import_like imp" and W: "\<And>q. \<not> occurs_at ''import'' W q"
  shows "nat (nextLineAfterLastImport (U @ imp @ CHR 0x0A # W)) = length U + length imp + 1"
proof -
  let ?d = "U @ imp @ CHR 0x0A # W"
  from il obtain t where t: "occurs_at ''import'' imp t" "CHR 0x0A \<notin> set (drop t imp)"
    unfolding import_like_def by blast
  have tb: "t + length ''import'' \<le> length imp" using occurs_at_bound[OF t(1)] .
  have "occurs_at ''import'' (imp @ CHR 0x0A # W) t"
    using t(1) tb by (simp only: occurs_at_append_left)
  then have here: "occurs_at ''import'' ?d (length U + t)"
    by (simp only: occurs_at_append_right)
  have bound: "q + length ''import'' \<le> length U + length imp" if o: "occurs_at ''import'' ?d q" for q
  proof (rule ccontr)
    assume n: "\<not> q + length ''import'' \<le> length U + length imp"
    have e: "?d = (U @ imp) @ CHR 0x0A # W" by simp
    have "?d ! (length U + length imp) = CHR 0x0A"
      unfolding e by (metis length_append nth_append_length)
    then have b: "?d ! (length U + length imp) \<notin> set ''import''" by simp
    have a: "length U + length imp < length ?d" by simp
    from barrier_char[OF o a b] n have "length U + length imp < q" by blast
    then obtain j where j: "q = length ((U @ imp) @ [CHR 0x0A]) + j"
      by (metis less_iff_Suc_add add_Suc_right add_Suc length_append_singleton length_append)
    have "occurs_at ''import'' (((U @ imp) @ [CHR 0x0A]) @ W) q" using o by simp
    then have "occurs_at ''import'' W j" unfolding j by (simp only: occurs_at_append_right)
    with W show False by blast
  qed
  have "last_occ ''import'' ?d \<noteq> None" using here by (auto simp: last_occ_None_iff)
  then obtain l where l: "last_occ ''import'' ?d = Some l" by blast
  then have lo: "occurs_at ''import'' ?d l" and lmax: "\<forall>j>l. \<not> occurs_at ''import'' ?d j"
    by (simp_all add: last_occ_Some_iff)
  from lmax here have l1: "length U + t \<le> l" by (meson not_less)
  from bound[OF lo] have l2: "l + 6 \<le> length U + length imp" by simp
  define Z where "Z = drop (l - length U) imp"
  have lZ: "length Z = length imp - (l - length U)" by (simp add: Z_def)
  have "set Z \<subseteq> set (drop t imp)"
    unfolding Z_def by (rule set_drop_subset_set_drop) (use l1 in simp)
  with t(2) have nZ: "CHR 0x0A \<notin> set Z" by blast
  have dl: "drop l ?d = Z @ CHR 0x0A # W"
    using l1 l2 by (simp add: Z_def)
  have fo: "first_occ ''\<newline>'' (drop l ?d) = Some (length Z)"
    unfolding dl by (simp add: first_occ_single takeWhile_until[OF nZ])
  have ip: "importInsertionPoint ?d = int l"
    using l by (simp add: importInsertionPoint_def js_lastIndexOf_def)
  have ll: "l \<le> length ?d" using l2 by simp
  have k: "nat (min (max (int l) 0) (int (length ?d))) = l" using ll by simp
  have "js_indexOf ?d ''\<newline>'' (int l) = int (l + length Z)"
    unfolding js_indexOf_def Let_def k fo by simp
  then have "nextLineAfterLastImport ?d = int (l + length Z) + 1"
    by (simp only: nextLineAfterLastImport_def ip)
  then have "nat (nextLineAfterLastImport ?d) = l + length Z + 1" by simp
  also have "\<dots> = length U + length imp + 1" using l1 l2 lZ by simp
  finally show ?thesis .
qed

text \<open>An occurrence in a text of three parts lies in one of them when the pattern
  cannot pass either seam.\<close>

lemma occurs_in_three:
  assumes o: "occurs_at pat (X @ R @ Y) q" and R: "R \<noteq> []"
    and l: "\<And>x. \<not> sublist [x, hd R] pat" and r: "\<And>y. \<not> sublist [last R, y] pat"
  shows "q + length pat \<le> length X \<or> (length X \<le> q \<and> q + length pat \<le> length X + length R)
         \<or> length X + length R \<le> q"
proof -
  let ?s = "X @ R @ Y"
  have left: "q + length pat \<le> length X \<or> length X \<le> q"
  proof (cases "X = []")
    case True
    then show ?thesis by simp
  next
    case False
    define k where "k = length X - 1"
    have k: "Suc k = length X" using False by (simp add: k_def)
    have a: "Suc k < length ?s" using k R by (simp add: Suc_le_eq)
    have "?s ! k = last X" using False k by (simp add: nth_append last_conv_nth k_def)
    moreover have "?s ! Suc k = hd R" unfolding k using R by (simp add: nth_append hd_conv_nth)
    ultimately have b: "\<not> sublist [?s ! k, ?s ! Suc k] pat" using l by simp
    from barrier_pair[OF o a b] k show ?thesis by simp
  qed
  have right: "q + length pat \<le> length X + length R \<or> length X + length R \<le> q"
  proof (cases "Y = []")
    case True
    with occurs_at_bound[OF o] show ?thesis by simp
  next
    case False
    define k where "k = length X + length R - 1"
    have k: "Suc k = length X + length R" using R by (simp add: k_def)
    have a: "Suc k < length ?s" using k False by (simp add: Suc_le_eq)
    have k': "k = length X + (length R - 1)" using k R by (cases R) simp_all
    have "?s ! k = (R @ Y) ! (length R - 1)" unfolding k' by (rule nth_append_length_plus)
    also have "\<dots> = R ! (length R - 1)" using R by (simp add: nth_append)
    finally have "?s ! k = last R" using R by (simp add: last_conv_nth)
    moreover have "?s = (X @ R) @ Y" by simp
    then have "?s ! Suc k = Y ! 0" unfolding k by (metis add.right_neutral length_append nth_append_length_plus)
    then have "?s ! Suc k = hd Y" using False by (simp add: hd_conv_nth)
    ultimately have b: "\<not> sublist [?s ! k, ?s ! Suc k] pat" using r by simp
    from barrier_pair[OF o a b] k show ?thesis by simp
  qed
  from left right show ?thesis by linarith
qed

lemma marker_pairs:
  "\<not> sublist [x, hd navigation_block] ''<Navbar />''"
  "\<not> sublist [last navigation_block, y] ''<Navbar />''"
  by (simp_all add: navigation_block_def sublist_Cons_right)

text \<open>When the marker occurs neither before nor behind a navigation block, that block
  is the only one.\<close>

lemma block_only_here:
  assumes P: "\<And>q. \<not> occurs_at ''<Navbar />'' P q" and Q: "\<And>q. \<not> occurs_at ''<Navbar />'' Q q"
    and o: "occurs_at navigation_block (P @ navigation_block @ Q) q"
  shows "q = length P"
proof -
  let ?nb = "''<Navbar />''"
  let ?s = "P @ navigation_block @ Q"
  obtain u v where uv: "navigation_block = u @ ?nb @ v" "length u = 77"
    using navblock_marker(1,4) by blast
  have "occurs_at ?nb navigation_block 77"
    using navblock_marker(2) by (simp add: first_occ_Some_iff)
  have ob: "occurs_at ?nb ?s (q + 77)"
  proof -
    from o obtain zs where z: "drop q ?s = navigation_block @ zs"
      by (auto simp: occurs_at_def prefix_def)
    have e: "navigation_block @ zs = u @ (?nb @ v @ zs)" by (subst uv(1)) simp
    have g: "drop 77 (u @ w) = w" for w using uv(2) by simp
    have "drop 77 (navigation_block @ zs) = ?nb @ v @ zs" by (simp only: e g)
    then have "drop 77 (drop q ?s) = ?nb @ v @ zs" unfolding z .
    then have "drop (q + 77) ?s = ?nb @ (v @ zs)" by (simp only: drop_drop add.commute)
    then have "prefix ?nb (drop (q + 77) ?s)" by (metis prefixI)
    moreover have "length navigation_block = 113" by (simp add: navigation_block_def)
    then have "q + 77 \<le> length ?s" using occurs_at_bound[OF o] by simp
    ultimately show ?thesis by (simp add: occurs_at_def)
  qed
  have ne: "navigation_block \<noteq> []" by (simp add: navigation_block_def)
  from occurs_in_three[OF ob ne marker_pairs]
  consider "q + 77 + length ?nb \<le> length P"
    | "length P \<le> q + 77" "q + 77 + length ?nb \<le> length P + length navigation_block"
    | "length P + length navigation_block \<le> q + 77" by blast
  then show ?thesis
  proof cases
    case 1
    with ob have "occurs_at ?nb P (q + 77)" by (simp only: occurs_at_append_left)
    with P show ?thesis by blast
  next
    case 2
    define j where "j = q + 77 - length P"
    have j: "q + 77 = length P + j" using 2 by (simp add: j_def)
    have "occurs_at ?nb (navigation_block @ Q) j"
      using ob unfolding j by (simp only: occurs_at_append_right)
    moreover have "j + length ?nb \<le> length navigation_block" using 2 by (simp add: j_def)
    ultimately have oj: "occurs_at ?nb navigation_block j" by (simp only: occurs_at_append_left)
    have "\<not> j < 77" using navblock_marker(2) oj by (auto simp: first_occ_Some_iff)
    moreover have "\<not> 77 < j" using navblock_marker(3) oj by (auto simp: last_occ_Some_iff)
    ultimately have "j = 77" by simp
    with j show ?thesis by simp
  next
    case 3
    define j where "j = q + 77 - length P - length navigation_block"
    have j: "q + 77 = length (P @ navigation_block) + j" using 3 by (simp add: j_def)
    have "occurs_at ?nb ((P @ navigation_block) @ Q) (q + 77)" using ob by simp
    then have "occurs_at ?nb Q j" unfolding j by (simp only: occurs_at_append_right)
    with Q show ?thesis by blast
  qed
qed

lemma length_children_anchor: "length children_anchor = 10"
  by (simp add: children_anchor_def)

lemma import_avoids_block: "no_touch ''import'' X navigation_block Y"
proof (rule region_no_touch)
  show "prefix ''im'' ''import''" by simp
  show "2 \<le> length navigation_block" by (simp add: navigation_block_def)
  show "\<not> sublist [navigation_block ! 0, navigation_block ! 1] ''import''"
    by (simp add: navigation_block_def sublist_Cons_right)
  show "last ''import'' \<noteq> navigation_block ! 0" by (simp add: navigation_block_def)
  show "\<not> sublist ''im'' navigation_block" by (rule anchor_facts(4))
  show "last navigation_block \<noteq> CHR ''i''" by (simp add: anchor_facts(6))
qed

lemma not_includes_parts:
  assumes "\<not> js_includes (X @ R @ Y) pat"
  shows "\<not> occurs_at pat X q" "\<not> occurs_at pat Y q"
proof -
  show "\<not> occurs_at pat X q"
  proof
    assume o: "occurs_at pat X q"
    then have "occurs_at pat (X @ R @ Y) q"
      using occurs_at_bound[OF o] by (simp only: occurs_at_append_left)
    with assms show False by (auto simp: js_includes_iff)
  qed
  show "\<not> occurs_at pat Y q"
  proof
    assume "occurs_at pat Y q"
    then have "occurs_at pat ((X @ R) @ Y) (length (X @ R) + q)"
      by (simp only: occurs_at_append_right)
    with assms show False by (auto simp: js_includes_iff)
  qed
qed

lemma insert_import_no_marker:
  assumes cfg: "config_ok cfg" and X: "\<And>q. \<not> occurs_at ''<Navbar />'' X q"
    and P: "(\<exists>m. P = take m X @ (importStatement cfg p @ ''\<newline>'') @ drop m X) \<or> P = X"
  shows "\<not> occurs_at ''<Navbar />'' P q"
proof
  assume o: "occurs_at ''<Navbar />'' P q"
  from P show False
  proof
    assume "\<exists>m. P = take m X @ (importStatement cfg p @ ''\<newline>'') @ drop m X"
    then obtain m where m: "P = take m X @ (importStatement cfg p @ ''\<newline>'') @ drop m X" by blast
    from o have o': "occurs_at ''<Navbar />''
        (take m X @ (importStatement cfg p @ ''\<newline>'') @ drop m X) q" unfolding m .
    from occurs_at_swap_middle[OF o' no_touchD[OF marker_avoids_import[OF cfg] o'], of "[]"] X
    show False by simp
  next
    assume "P = X"
    with o X show False by blast
  qed
qed

lemma block_invI:
  assumes "D = U @ imp @ CHR 0x0A # W" "import_like imp" "\<And>q. \<not> occurs_at ''import'' W q"
    "D = X @ navigation_block @ Y"
    "\<And>q. \<not> occurs_at ''<Navbar />'' X q" "\<And>q. \<not> occurs_at ''<Navbar />'' Y q"
    "length X + length navigation_block \<le> length U \<or> length U + length imp + 1 \<le> length X"
  shows "block_inv D"
  unfolding block_inv_def using assms by blast

text \<open>The navigation provider, applied to a layout with the children anchor, without
  marker and with a line break behind its last import, puts the block in the place of
  the anchor and leaves a document of that shape.\<close>

lemma navbar_gives_inv:
  assumes cfg: "config_ok cfg"
    and ch: "js_includes c children_anchor" and nb: "\<not> js_includes c ''<Navbar />''"
    and lb: "beforeImport c \<noteq> []"
  shows "\<exists>X Y. modifiedImportContent cfg Navbar c = X @ children_anchor @ Y
           \<and> newLayoutContent cfg Navbar c = X @ navigation_block @ Y"
    and "block_inv (newLayoutContent cfg Navbar c)"
proof -
  define M where "M = modifiedImportContent cfg Navbar c"
  define D where "D = newLayoutContent cfg Navbar c"
  define Bc where "Bc = beforeImport c"
  define Ac where "Ac = afterImport c"
  define imp where "imp = importStatement cfg Navbar"
  have il: "import_like imp" unfolding imp_def by (rule import_like_statement[OF cfg])
  have nbc: "\<not> navbarExists c" using nb by (simp add: navbarExists_def)
  have new: "D = js_replace M children_anchor navigation_block"
    using nbc by (simp add: D_def M_def newLayoutContent_def searchValue_def)
  have Meq: "M = Bc @ (imp @ ''\<newline>'') @ Ac"
    unfolding M_def Bc_def Ac_def imp_def by (rule modified_eq)
  from ch have "js_includes (Bc @ [] @ Ac) children_anchor"
    by (simp add: before_after Bc_def Ac_def)
  then have "js_includes M children_anchor"
    unfolding Meq Bc_def Ac_def
    by (rule includes_swap_middle[OF nlfree_not_cut[OF marker_nlfree(2)]])
  then obtain i where fo: "first_occ children_anchor M = Some i" by (auto simp: js_includes_def)
  from replace_found[OF fo marker_nlfree(3), of navigation_block]
  obtain X Y where XY: "M = X @ children_anchor @ Y" "D = X @ navigation_block @ Y"
    "length X = i" unfolding new by blast
  show "\<exists>X Y. modifiedImportContent cfg Navbar c = X @ children_anchor @ Y
           \<and> newLayoutContent cfg Navbar c = X @ navigation_block @ Y"
    using XY(1,2) unfolding M_def D_def by blast
  have X: "X = take i M" using XY(1,3) by simp
  have Y: "Y = drop (i + 10) M" using XY(1,3) length_children_anchor by simp
  have nbM: "\<not> js_includes M ''<Navbar />''"
  proof
    assume "js_includes M ''<Navbar />''"
    then have "js_includes (Bc @ (imp @ ''\<newline>'') @ Ac) ''<Navbar />''" unfolding Meq .
    then have "js_includes (Bc @ [] @ Ac) ''<Navbar />''"
      unfolding imp_def by (rule includes_swap_middle[OF marker_avoids_import[OF cfg]])
    with nb show False by (simp add: before_after Bc_def Ac_def)
  qed
  have nbX: "\<not> occurs_at ''<Navbar />'' X q" and nbY: "\<not> occurs_at ''<Navbar />'' Y q" for q
    using not_includes_parts[OF nbM[unfolded XY(1)]] by blast+
  have oc: "occurs_at children_anchor (Bc @ (imp @ ''\<newline>'') @ Ac) i"
    using fo unfolding Meq by (simp add: first_occ_Some_iff)
  have nt: "no_touch children_anchor Bc (imp @ ''\<newline>'') Ac"
    unfolding imp_def by (rule children_avoids_import[OF cfg])
  have noA: "\<not> occurs_at ''import'' Ac q" for q
    unfolding Ac_def by (rule afterImport_no_import[OF lb])
  from no_touchD[OF nt oc]
  consider (L) "i + 10 \<le> length Bc" | (R) "length Bc + length (imp @ ''\<newline>'') \<le> i"
    unfolding length_children_anchor by blast
  then show "block_inv (newLayoutContent cfg Navbar c)"
  proof cases
    case L
    define Z where "Z = take i Bc @ navigation_block @ drop (i + 10) Bc"
    have tX: "X = take i Bc" unfolding X Meq using L by simp
    have dY: "Y = drop (i + 10) Bc @ (imp @ ''\<newline>'') @ Ac" unfolding Y Meq using L by simp
    have D1: "D = Z @ imp @ CHR 0x0A # Ac" unfolding XY(2) tX dY Z_def by simp
    have len: "length X + length navigation_block \<le> length Z
               \<or> length Z + length imp + 1 \<le> length X"
      unfolding Z_def tX by simp
    show ?thesis
      unfolding D_def[symmetric]
      by (rule block_invI[OF D1 il noA XY(2) nbX nbY len])
  next
    case R
    define j where "j = i - length (Bc @ (imp @ ''\<newline>''))"
    have i: "i = length (Bc @ (imp @ ''\<newline>'')) + j" using R by (simp add: j_def)
    have "occurs_at children_anchor ((Bc @ (imp @ ''\<newline>'')) @ Ac) i" using oc by simp
    then have oj: "occurs_at children_anchor Ac j" unfolding i by (simp only: occurs_at_append_right)
    then obtain zs where zs: "drop j Ac = children_anchor @ zs"
      by (auto simp: occurs_at_def prefix_def)
    have "drop (j + 10) Ac = drop 10 (drop j Ac)" by (metis drop_drop add.commute)
    also have "\<dots> = zs" unfolding zs using length_children_anchor by simp
    finally have dz: "drop (j + 10) Ac = zs" .
    have Ac: "Ac = take j Ac @ children_anchor @ drop (j + 10) Ac"
      unfolding dz using zs by (metis append_take_drop_id)
    define W where "W = take j Ac @ navigation_block @ drop (j + 10) Ac"
    have t: "take i ((Bc @ (imp @ ''\<newline>'')) @ Ac) = (Bc @ (imp @ ''\<newline>'')) @ take j Ac"
      unfolding i by (simp only: take_append) simp
    have d: "drop (i + 10) ((Bc @ (imp @ ''\<newline>'')) @ Ac) = drop (j + 10) Ac"
      unfolding i by (simp only: drop_append) (simp add: ac_simps)
    have tX: "X = (Bc @ (imp @ ''\<newline>'')) @ take j Ac" unfolding X Meq using t by simp
    have dY: "Y = drop (j + 10) Ac" unfolding Y Meq using d by simp
    have D1: "D = Bc @ imp @ CHR 0x0A # W" unfolding XY(2) tX dY W_def by simp
    have noW: "\<not> occurs_at ''import'' W q" for q
    proof
      assume "occurs_at ''import'' W q"
      then have o: "occurs_at ''import'' (take j Ac @ navigation_block @ drop (j + 10) Ac) q"
        unfolding W_def .
      from occurs_at_swap_middle[OF o no_touchD[OF import_avoids_block o], of children_anchor]
      have "\<exists>q'. occurs_at ''import'' (take j Ac @ children_anchor @ drop (j + 10) Ac) q'"
        by blast
      then have "\<exists>q'. occurs_at ''import'' Ac q'" using Ac by simp
      with noA show False by blast
    qed
    have len: "length X + length navigation_block \<le> length Bc
               \<or> length Bc + length imp + 1 \<le> length X"
      unfolding tX by simp
    show ?thesis
      unfolding D_def[symmetric]
      by (rule block_invI[OF D1 il noW XY(2) nbX nbY len])
  qed
qed

lemma block_parts:
  assumes "p \<noteq> Navbar"
  shows "replacementText p navigation_block = block_pre p @ navigation_block @ block_post p"
    and "block_pre p = [] \<or> hd (block_pre p) = CHR 0x0A"
    and "block_post p \<noteq> []" and "last (block_post p) = CHR 0x0A"
  using assms by (cases p; simp add: block_pre_def block_post_def wrapper_close_def)+

lemma block_parts_no_marker:
  "\<not> js_includes (block_pre p) ''<Navbar />''" "\<not> js_includes (block_post p) ''<Navbar />''"
  by (cases p; simp add: block_pre_def block_post_def wrapper_close_def js_includes_def)+

lemma import_avoids_block_replacement:
  "no_touch ''import'' X (replacementText p navigation_block) Y"
proof (rule region_no_touch)
  let ?rt = "replacementText p navigation_block"
  have rt: "?rt = replacementText p (rootChildrenText True)" by (simp add: rootChildrenText_def)
  show "prefix ''im'' ''import''" by simp
  show "2 \<le> length ?rt" unfolding rt by (rule replacement_facts)
  show "\<not> sublist [?rt ! 0, ?rt ! 1] ''import''"
    using replacement_facts(5)[of p True] unfolding rt[symmetric]
    by (auto simp: sublist_Cons_right)
  show "last ''import'' \<noteq> ?rt ! 0"
    using replacement_facts(5)[of p True] unfolding rt[symmetric] by auto
  show "\<not> sublist ''im'' ?rt" unfolding rt by (rule replacement_facts)
  show "last ?rt \<noteq> CHR ''i''" unfolding rt by (rule replacement_facts)
qed

text \<open>Two texts without marker, joined at a line break, give a text without marker.\<close>

lemma marker_free_seam:
  assumes A: "\<And>q. \<not> occurs_at ''<Navbar />'' A q" and B: "\<And>q. \<not> occurs_at ''<Navbar />'' B q"
    and seam: "A = [] \<or> B = [] \<or> last A = CHR 0x0A \<or> hd B = CHR 0x0A"
  shows "\<not> occurs_at ''<Navbar />'' (A @ B) q"
proof
  assume o: "occurs_at ''<Navbar />'' (A @ B) q"
  show False
  proof (cases "A = [] \<or> B = []")
    case True
    with o A B show False by auto
  next
    case False
    then have Ane: "A \<noteq> []" and Bne: "B \<noteq> []" by simp_all
    define k where "k = length A - 1"
    have k: "Suc k = length A" using Ane by (simp add: k_def)
    have a: "Suc k < length (A @ B)" using k Bne by (simp add: Suc_le_eq)
    have e1: "(A @ B) ! k = last A" using Ane k by (simp add: nth_append last_conv_nth k_def)
    have e2: "(A @ B) ! Suc k = hd B" unfolding k using Bne by (simp add: nth_append hd_conv_nth)
    from seam False have "last A = CHR 0x0A \<or> hd B = CHR 0x0A" by simp
    then have "(A @ B) ! k = CHR 0x0A \<or> (A @ B) ! Suc k = CHR 0x0A" using e1 e2 by simp
    then have b: "\<not> sublist [(A @ B) ! k, (A @ B) ! Suc k] ''<Navbar />''"
      by (auto simp: sublist_Cons_right)
    from barrier_pair[OF o a b] k
    consider "q + length ''<Navbar />'' \<le> length A" | "length A \<le> q" by auto
    then show False
    proof cases
      case 1
      with o have "occurs_at ''<Navbar />'' A q" by (simp only: occurs_at_append_left)
      with A show False by blast
    next
      case 2
      with o have "occurs_at ''<Navbar />'' B (q - length A)"
        by (simp only: occurs_at_append_right')
      with B show False by blast
    qed
  qed
qed

lemma marker_only_in_block:
  assumes P: "\<And>q. \<not> occurs_at ''<Navbar />'' P q" and Q: "\<And>q. \<not> occurs_at ''<Navbar />'' Q q"
    and ob: "occurs_at ''<Navbar />'' (P @ navigation_block @ Q) r"
  shows "r = length P + 77"
proof -
  let ?nb = "''<Navbar />''"
  have ne: "navigation_block \<noteq> []" by (simp add: navigation_block_def)
  from occurs_in_three[OF ob ne marker_pairs]
  consider "r + length ?nb \<le> length P"
    | "length P \<le> r" "r + length ?nb \<le> length P + length navigation_block"
    | "length P + length navigation_block \<le> r" by blast
  then show ?thesis
  proof cases
    case 1
    with ob have "occurs_at ?nb P r" by (simp only: occurs_at_append_left)
    with P show ?thesis by blast
  next
    case 2
    define j where "j = r - length P"
    have j: "r = length P + j" using 2 by (simp add: j_def)
    have "occurs_at ?nb (navigation_block @ Q) j"
      using ob unfolding j by (simp only: occurs_at_append_right)
    moreover have "j + length ?nb \<le> length navigation_block" using 2 by (simp add: j_def)
    ultimately have oj: "occurs_at ?nb navigation_block j" by (simp only: occurs_at_append_left)
    have "\<not> j < 77" using navblock_marker(2) oj by (auto simp: first_occ_Some_iff)
    moreover have "\<not> 77 < j" using navblock_marker(3) oj by (auto simp: last_occ_Some_iff)
    ultimately have "j = 77" by simp
    with j show ?thesis by simp
  next
    case 3
    define j where "j = r - length P - length navigation_block"
    have j: "r = length (P @ navigation_block) + j" using 3 by (simp add: j_def)
    have "occurs_at ?nb ((P @ navigation_block) @ Q) r" using ob by simp
    then have "occurs_at ?nb Q j" unfolding j by (simp only: occurs_at_append_right)
    with Q show ?thesis by blast
  qed
qed

lemma marker_once_in_block:
  assumes P: "\<And>q. \<not> occurs_at ''<Navbar />'' P q" and Q: "\<And>q. \<not> occurs_at ''<Navbar />'' Q q"
  shows "count_occ ''<Navbar />'' (P @ navigation_block @ Q) = 1"
proof (rule count_occ_one)
  have "occurs_at ''<Navbar />'' navigation_block 77"
    using navblock_marker(2) by (simp add: first_occ_Some_iff)
  moreover have "77 + length ''<Navbar />'' \<le> length navigation_block"
    by (simp add: navigation_block_def)
  ultimately have "occurs_at ''<Navbar />'' (navigation_block @ Q) 77"
    by (simp only: occurs_at_append_left)
  then show "occurs_at ''<Navbar />'' (P @ navigation_block @ Q) (length P + 77)"
    by (simp only: occurs_at_append_right)
  show "at_most_once ''<Navbar />'' (P @ navigation_block @ Q)"
    unfolding at_most_once_def
  proof (intro allI impI)
    fix i j
    assume "occurs_at ''<Navbar />'' (P @ navigation_block @ Q) i"
      and "occurs_at ''<Navbar />'' (P @ navigation_block @ Q) j"
    then have "i = length P + 77" "j = length P + 77"
      using marker_only_in_block[OF P Q] by blast+
    then show "i = j" by simp
  qed
qed

text \<open>In a document of that shape every provider other than the navigation provider
  finds the one navigation block, builds its element around the whole block, and leaves
  a document of the same shape.\<close>

lemma inv_step:
  assumes cfg: "config_ok cfg" and B: "B \<noteq> Navbar" and inv: "block_inv D"
  shows "wraps_block cfg B D \<and> block_inv (newLayoutContent cfg B D)"
proof -
  from inv obtain U imp W X Y where
    D1: "D = U @ imp @ CHR 0x0A # W" and il: "import_like imp"
    and noW: "\<And>q. \<not> occurs_at ''import'' W q"
    and D2: "D = X @ navigation_block @ Y"
    and nbX: "\<And>q. \<not> occurs_at ''<Navbar />'' X q"
    and nbY: "\<And>q. \<not> occurs_at ''<Navbar />'' Y q"
    and len: "length X + length navigation_block \<le> length U
              \<or> length U + length imp + 1 \<le> length X"
    unfolding block_inv_def by blast
  define impB where "impB = importStatement cfg B"
  define insB where "insB = impB @ [CHR 0x0A]"
  define pre where "pre = block_pre B"
  define post where "post = block_post B"
  define R where "R = newLayoutContent cfg B D"
  define M where "M = modifiedImportContent cfg B D"
  define H where "H = U @ imp @ [CHR 0x0A]"
  have ilB: "import_like impB" unfolding impB_def by (rule import_like_statement[OF cfg])
  have n: "nat (nextLineAfterLastImport D) = length H"
    unfolding D1 H_def using nextLine_after_last_statement[OF il noW, of U] by simp
  have D3: "D = H @ W" unfolding D1 H_def by simp
  have Meq: "M = H @ insB @ W"
  proof -
    have "take (length H) D = H" "drop (length H) D = W" unfolding D3 by simp_all
    then show ?thesis
      unfolding M_def insB_def impB_def
      by (simp add: modified_eq beforeImport_take afterImport_drop n)
  qed
  have nav: "navbarExists D" unfolding D2 navbarExists_def by (rule block_includes_marker)
  have sv: "searchValue (navbarExists D) = navigation_block" using nav by (simp add: searchValue_def)
  have rt: "replacementText B navigation_block = pre @ navigation_block @ post"
    unfolding pre_def post_def by (rule block_parts(1)[OF B])
  have newR: "R = js_replace M navigation_block (pre @ navigation_block @ post)"
    using nav rt by (simp add: R_def M_def newLayoutContent_def searchValue_def rootChildrenText_def)
  have nbpre: "\<not> occurs_at ''<Navbar />'' pre q" and nbpost: "\<not> occurs_at ''<Navbar />'' post q" for q
    using block_parts_no_marker[of B] unfolding pre_def post_def js_includes_iff by blast+
  have seam1: "A = [] \<or> pre = [] \<or> last A = CHR 0x0A \<or> hd pre = CHR 0x0A" for A :: string
    using block_parts(2)[OF B] unfolding pre_def by blast
  have seam2: "post = [] \<or> A = [] \<or> last post = CHR 0x0A \<or> hd A = CHR 0x0A" for A :: string
    using block_parts(4)[OF B] unfolding post_def by blast
  have found: "first_occ navigation_block (P @ navigation_block @ Q) = Some (length P)"
    if nbP: "\<And>q. \<not> occurs_at ''<Navbar />'' P q" and nbQ: "\<And>q. \<not> occurs_at ''<Navbar />'' Q q"
    for P Q
    unfolding first_occ_Some_iff
  proof (intro conjI allI impI)
    show "occurs_at navigation_block (P @ navigation_block @ Q) (length P)"
      by (rule occurs_at_self)
    fix j assume j: "j < length P"
    show "\<not> occurs_at navigation_block (P @ navigation_block @ Q) j"
    proof
      assume "occurs_at navigation_block (P @ navigation_block @ Q) j"
      from block_only_here[OF nbP nbQ this] j show False by simp
    qed
  qed
  have step: "R = P @ pre @ navigation_block @ post @ Q"
    if PQ: "M = P @ navigation_block @ Q"
      and nbP: "\<And>q. \<not> occurs_at ''<Navbar />'' P q" and nbQ: "\<And>q. \<not> occurs_at ''<Navbar />'' Q q"
    for P Q
  proof -
    have "R = P @ (pre @ navigation_block @ post) @ Q"
      unfolding newR PQ by (rule js_replace_at[OF found[OF nbP nbQ]])
    then show ?thesis by simp
  qed
  have wraps: "wraps_block cfg B D"
    if PQ: "M = P @ navigation_block @ Q"
      and nbP: "\<And>q. \<not> occurs_at ''<Navbar />'' P q" and nbQ: "\<And>q. \<not> occurs_at ''<Navbar />'' Q q"
    for P Q
  proof -
    have fo: "first_occ navigation_block M = Some (length P)"
      unfolding PQ by (rule found[OF nbP nbQ])
    have c: "count_occ ''<Navbar />'' M = 1"
      unfolding PQ by (rule marker_once_in_block[OF nbP nbQ])
    have t: "take (length P) M = P" "drop (length P + length navigation_block) M = Q"
      unfolding PQ by simp_all
    have "R = take (length P) M @ pre @ navigation_block @ post
                @ drop (length P + length navigation_block) M"
      unfolding t by (rule step[OF PQ nbP nbQ])
    with sv c fo show ?thesis
      unfolding wraps_block_def Let_def M_def R_def pre_def post_def by simp
  qed
  from len show ?thesis
  proof
    assume L: "length X + length navigation_block \<le> length U"
    define k where "k = length (X @ navigation_block)"
    define Y0 where "Y0 = drop k U"
    have le: "k \<le> length U" using L by (simp add: k_def)
    have e: "(X @ navigation_block) @ Y = U @ (imp @ CHR 0x0A # W)" using D1 D2 by simp
    have "take k ((X @ navigation_block) @ Y) = X @ navigation_block" by (simp add: k_def)
    then have "take k (U @ (imp @ CHR 0x0A # W)) = X @ navigation_block" unfolding e .
    then have tU: "take k U = X @ navigation_block" using le by simp
    have "drop k ((X @ navigation_block) @ Y) = Y" by (simp add: k_def)
    then have "drop k (U @ (imp @ CHR 0x0A # W)) = Y" unfolding e .
    then have Yeq: "Y = Y0 @ imp @ CHR 0x0A # W" using le by (simp add: Y0_def)
    have Ueq: "U = X @ navigation_block @ Y0"
      using append_take_drop_id[of k U] unfolding tU Y0_def by simp
    define Q where "Q = Y0 @ imp @ [CHR 0x0A] @ insB @ W"
    have PQ: "M = X @ navigation_block @ Q" unfolding Meq H_def Ueq Q_def by simp
    have Yh: "Y = (Y0 @ imp @ [CHR 0x0A]) @ W" unfolding Yeq by simp
    have "Q = take (length (Y0 @ imp @ [CHR 0x0A])) Y @ insB
                @ drop (length (Y0 @ imp @ [CHR 0x0A])) Y"
      unfolding Yh Q_def by simp
    then have Qf: "(\<exists>m. Q = take m Y @ (importStatement cfg B @ ''\<newline>'') @ drop m Y) \<or> Q = Y"
      unfolding insB_def impB_def by blast
    have nbQ: "\<not> occurs_at ''<Navbar />'' Q q" for q
      by (rule insert_import_no_marker[OF cfg nbY Qf])
    have Req: "R = X @ pre @ navigation_block @ post @ Q" by (rule step[OF PQ nbX nbQ])
    define U' where "U' = X @ pre @ navigation_block @ post @ Y0 @ imp @ [CHR 0x0A]"
    have R1: "R = U' @ impB @ CHR 0x0A # W" unfolding Req Q_def U'_def insB_def by simp
    have R2: "R = (X @ pre) @ navigation_block @ (post @ Q)" unfolding Req by simp
    have n1: "\<not> occurs_at ''<Navbar />'' (X @ pre) q" for q
      by (rule marker_free_seam[OF nbX nbpre seam1])
    have n2: "\<not> occurs_at ''<Navbar />'' (post @ Q) q" for q
      by (rule marker_free_seam[OF nbpost nbQ seam2])
    have l: "length (X @ pre) + length navigation_block \<le> length U'
             \<or> length U' + length impB + 1 \<le> length (X @ pre)"
      unfolding U'_def by simp
    have "block_inv R" by (rule block_invI[OF R1 ilB noW R2 n1 n2 l])
    with wraps[OF PQ nbX nbQ] show ?thesis unfolding R_def by simp
  next
    assume Rc: "length U + length imp + 1 \<le> length X"
    define k where "k = length H"
    define X0 where "X0 = drop k X"
    have le: "k \<le> length X" using Rc by (simp add: k_def H_def)
    have e: "H @ W = X @ (navigation_block @ Y)" using D3 D2 by simp
    have "take k (H @ W) = H" by (simp add: k_def)
    then have "take k (X @ (navigation_block @ Y)) = H" unfolding e .
    then have tX: "take k X = H" using le by simp
    have "drop k (H @ W) = W" by (simp add: k_def)
    then have "drop k (X @ (navigation_block @ Y)) = W" unfolding e .
    then have Weq: "W = X0 @ navigation_block @ Y" using le by (simp add: X0_def)
    have Xeq: "X = H @ X0"
      using append_take_drop_id[of k X] unfolding tX X0_def by simp
    define P where "P = H @ insB @ X0"
    have PQ: "M = P @ navigation_block @ Y" unfolding Meq Weq P_def by simp
    have "P = take k X @ insB @ drop k X" unfolding P_def tX X0_def by simp
    then have Pf: "(\<exists>m. P = take m X @ (importStatement cfg B @ ''\<newline>'') @ drop m X) \<or> P = X"
      unfolding insB_def impB_def by blast
    have nbP: "\<not> occurs_at ''<Navbar />'' P q" for q
      by (rule insert_import_no_marker[OF cfg nbX Pf])
    have Req: "R = P @ pre @ navigation_block @ post @ Y" by (rule step[OF PQ nbP nbY])
    define W' where "W' = X0 @ (pre @ navigation_block @ post) @ Y"
    have R1: "R = H @ impB @ CHR 0x0A # W'" unfolding Req P_def W'_def insB_def by simp
    have R2: "R = (P @ pre) @ navigation_block @ (post @ Y)" unfolding Req by simp
    have noW': "\<not> occurs_at ''import'' W' q" for q
    proof
      assume "occurs_at ''import'' W' q"
      then have o: "occurs_at ''import'' (X0 @ replacementText B navigation_block @ Y) q"
        unfolding W'_def rt .
      from occurs_at_swap_middle[OF o no_touchD[OF import_avoids_block_replacement o],
          of navigation_block]
      have "\<exists>q'. occurs_at ''import'' (X0 @ navigation_block @ Y) q'" by blast
      with noW show False unfolding Weq by blast
    qed
    have n1: "\<not> occurs_at ''<Navbar />'' (P @ pre) q" for q
      by (rule marker_free_seam[OF nbP nbpre seam1])
    have n2: "\<not> occurs_at ''<Navbar />'' (post @ Y) q" for q
      by (rule marker_free_seam[OF nbpost nbY seam2])
    have l: "length (P @ pre) + length navigation_block \<le> length H
             \<or> length H + length impB + 1 \<le> length (P @ pre)"
      unfolding P_def insB_def by simp
    have "block_inv R" by (rule block_invI[OF R1 ilB noW' R2 n1 n2 l])
    with wraps[OF PQ nbP nbY] show ?thesis unfolding R_def by simp
  qed
qed

lemma wraps_block_each_inv:
  assumes cfg: "config_ok cfg"
  shows "Navbar \<notin> set Bs \<Longrightarrow> block_inv D \<Longrightarrow> wraps_block_each cfg Bs D"
proof (induction Bs arbitrary: D)
  case Nil
  then show ?case by simp
next
  case (Cons B Bs)
  from Cons.prems have B: "B \<noteq> Navbar" and Bs: "Navbar \<notin> set Bs" by auto
  from inv_step[OF cfg B Cons.prems(2)]
  have w: "wraps_block cfg B D" and i: "block_inv (newLayoutContent cfg B D)" by simp_all
  from Cons.IH[OF Bs i] w show ?case by simp
qed

text \<open>A run of different providers whose imports the document does not hold writes
  after every application.\<close>

lemma apply_all_writes:
  assumes cfg: "config_ok cfg"
  shows "distinct Bs \<Longrightarrow> list_all (\<lambda>B. \<not> js_includes d (importStatement cfg B)) Bs
     \<Longrightarrow> files s (layout_path cfg) = Some d
     \<Longrightarrow> apply_all cfg Bs s = Inr (write_all (layout_path cfg) (layouts_after cfg Bs d) s)"
proof (induction Bs arbitrary: d s)
  case Nil
  then show ?case by simp
next
  case (Cons B Bs)
  define d' where "d' = newLayoutContent cfg B d"
  define s' where "s' = replaceFile (layout_path cfg) d' s"
  from Cons.prems have nB: "\<not> js_includes d (importStatement cfg B)"
    and rest: "list_all (\<lambda>C. \<not> js_includes d (importStatement cfg C)) Bs"
    and dist: "distinct Bs" and notin: "B \<notin> set Bs" by simp_all
  have 1: "addContextProviderToLayout cfg B s = Inr s'"
    using Cons.prems(3) nB by (simp add: addContextProviderToLayout_def s'_def d'_def)
  have f: "files s' (layout_path cfg) = Some d'" by (simp add: s'_def replaceFile_def)
  have "list_all (\<lambda>C. \<not> js_includes d' (importStatement cfg C)) Bs"
    unfolding list_all_iff
  proof
    fix C assume C: "C \<in> set Bs"
    then have "C \<noteq> B" using notin by blast
    moreover have "\<not> js_includes d (importStatement cfg C)"
      using rest C by (simp add: list_all_iff)
    ultimately show "\<not> js_includes d' (importStatement cfg C)"
      unfolding d'_def using step_other_import_back[OF cfg, of C B d] by blast
  qed
  from Cons.IH[OF dist this f]
  have "apply_all cfg Bs s' = Inr (write_all (layout_path cfg) (layouts_after cfg Bs d') s')" .
  with 1 show ?case by (simp add: apply_then_def s'_def d'_def)
qed

text \<open>
  C3 (as the code has it).  Take a configuration whose alias and import paths are free
  of blanks, line breaks, angle brackets and braces, and a layout that contains the
  children anchor, no navigation marker, no navigation import, and a line break behind
  its last import.  Take any run of different providers other than the navigation
  provider whose import statements the layout does not contain.  Applying the navigation
  provider and then the run writes after every application.  The navigation provider
  searches for the children anchor and puts the navigation block in its place.  Every
  provider of the run searches for the navigation block; its document with the import
  inserted holds the navigation marker once, and the result is that document with the
  whole block between the provider's two texts: a wrapping provider encloses the block
  in its element (line break, opening tag, block, closing tag, line break), the toast
  provider appends its element behind the block.
\<close>

theorem navbar_changes_anchor:
  assumes cfg: "config_ok cfg"
    and f: "files s (layout_path cfg) = Some c"
    and ch: "js_includes c children_anchor" and nb: "\<not> js_includes c ''<Navbar />''"
    and nN: "\<not> js_includes c (importStatement cfg Navbar)"
    and lb: "beforeImport c \<noteq> []"
    and Bs: "distinct Bs" "Navbar \<notin> set Bs"
      "list_all (\<lambda>B. \<not> js_includes c (importStatement cfg B)) Bs"
  shows "searchValue (navbarExists c) = children_anchor
         \<and> (\<exists>X Y. modifiedImportContent cfg Navbar c = X @ children_anchor @ Y
                   \<and> newLayoutContent cfg Navbar c = X @ navigation_block @ Y)
         \<and> wraps_block_each cfg Bs (newLayoutContent cfg Navbar c)
         \<and> apply_all cfg (Navbar # Bs) s
             = Inr (write_all (layout_path cfg) (layouts_after cfg (Navbar # Bs) c) s)"
proof -
  have "\<not> navbarExists c" using nb by (simp add: navbarExists_def)
  then have sv: "searchValue (navbarExists c) = children_anchor" by (simp add: searchValue_def)
  note first = navbar_gives_inv[OF cfg ch nb lb]
  have each: "wraps_block_each cfg Bs (newLayoutContent cfg Navbar c)"
    by (rule wraps_block_each_inv[OF cfg Bs(2) first(2)])
  have d: "distinct (Navbar # Bs)" using Bs(1,2) by simp
  have l: "list_all (\<lambda>B. \<not> js_includes c (importStatement cfg B)) (Navbar # Bs)"
    using nN Bs(3) by simp
  from sv first(1) each apply_all_writes[OF cfg d l f] show ?thesis by blast
qed

theorem navbar_changes_anchor_witness:
  "config_ok example_config
   \<and> js_includes plain_layout children_anchor \<and> \<not> js_includes plain_layout ''<Navbar />''
   \<and> \<not> js_includes plain_layout (importStatement example_config Navbar)
   \<and> beforeImport plain_layout \<noteq> []
   \<and> distinct [ThemeProvider, ShadcnToast, ClerkProvider]
   \<and> Navbar \<notin> set [ThemeProvider, ShadcnToast, ClerkProvider]
   \<and> list_all (\<lambda>B. \<not> js_includes plain_layout (importStatement example_config B))
        [ThemeProvider, ShadcnToast, ClerkProvider]
   \<and> searchValue (navbarExists plain_layout) = children_anchor
   \<and> wraps_block_each example_config [ThemeProvider, ShadcnToast, ClerkProvider]
        plain_layout_navbar
   \<and> apply_all example_config [Navbar, ThemeProvider, ShadcnToast, ClerkProvider]
        (fs_with example_config plain_layout)
       = Inr (write_all (layout_path example_config)
               [plain_layout_navbar, plain_layout_navbar_theme,
                plain_layout_navbar_theme_toast, plain_layout_navbar_theme_toast_clerk]
               (fs_with example_config plain_layout))"
proof -
  have f: "files (fs_with example_config plain_layout) (layout_path example_config)
             = Some plain_layout"
    by (simp add: fs_with_def)
  have h: "js_includes plain_layout children_anchor" "\<not> js_includes plain_layout ''<Navbar />''"
    "\<not> js_includes plain_layout (importStatement example_config Navbar)"
    unfolding plain_layout_def by code_simp+
  have b: "beforeImport plain_layout \<noteq> []"
    unfolding plain_layout_def by code_simp
  have w: "distinct [ThemeProvider, ShadcnToast, ClerkProvider]"
    "Navbar \<notin> set [ThemeProvider, ShadcnToast, ClerkProvider]" by simp_all
  have i: "\<not> js_includes plain_layout (importStatement example_config ThemeProvider)"
    "\<not> js_includes plain_layout (importStatement example_config ShadcnToast)"
    "\<not> js_includes plain_layout (importStatement example_config ClerkProvider)"
    unfolding plain_layout_def by code_simp+
  have l: "list_all (\<lambda>B. \<not> js_includes plain_layout (importStatement example_config B))
        [ThemeProvider, ShadcnToast, ClerkProvider]"
    using i by simp
  have e1: "newLayoutContent example_config Navbar plain_layout = plain_layout_navbar"
    unfolding plain_layout_def plain_layout_navbar_def by code_simp
  have e2: "newLayoutContent example_config ThemeProvider plain_layout_navbar
              = plain_layout_navbar_theme"
    unfolding plain_layout_navbar_def plain_layout_navbar_theme_def by code_simp
  have e3: "newLayoutContent example_config ShadcnToast plain_layout_navbar_theme
              = plain_layout_navbar_theme_toast"
    unfolding plain_layout_navbar_theme_def plain_layout_navbar_theme_toast_def by code_simp
  have e4: "newLayoutContent example_config ClerkProvider plain_layout_navbar_theme_toast
              = plain_layout_navbar_theme_toast_clerk"
    unfolding plain_layout_navbar_theme_toast_def plain_layout_navbar_theme_toast_clerk_def
    by code_simp
  have la: "layouts_after example_config [Navbar, ThemeProvider, ShadcnToast, ClerkProvider]
              plain_layout
            = [plain_layout_navbar, plain_layout_navbar_theme,
               plain_layout_navbar_theme_toast, plain_layout_navbar_theme_toast_clerk]"
    by (simp add: e1 e2 e3 e4)
  show ?thesis
    using example_config_ok h b w l
      navbar_changes_anchor [OF example_config_ok f h b w l, unfolded e1 la]
    by blast
qed

text \<open>The claim as the specification words it fails in two ways.  On a layout whose
  import no line break follows, the import of the provider applied after the navigation
  provider is inserted inside the navigation block, the block is not found any more, and
  nothing is wrapped.  And the toast provider wraps nothing on any layout: it appends
  its element behind the navigation block.\<close>

theorem navbar_changes_anchor_counterexample:
  \<open>js_includes one_line_layout children_anchor
   \<and> \<not> js_includes one_line_layout ''<Navbar />''
   \<and> apply_all example_config [Navbar, ClerkProvider] (fs_with example_config one_line_layout)
       = Inr (write_all (layout_path example_config)
               [one_line_layout_navbar, one_line_layout_navbar_clerk]
               (fs_with example_config one_line_layout))
   \<and> \<not> js_includes one_line_layout_navbar_clerk ''<ClerkProvider>''
   \<and> \<not> js_includes one_line_layout_navbar_clerk navigation_block
   \<and> apply_all example_config [Navbar, ShadcnToast] (fs_with example_config plain_layout)
       = Inr (write_all (layout_path example_config)
               [plain_layout_navbar, plain_layout_navbar_toast]
               (fs_with example_config plain_layout))
   \<and> js_includes plain_layout_navbar_toast
        (''<body>'' @ navigation_block @ ''\<newline><Toaster />\<newline></body>'')\<close>
proof -
  have h: "js_includes one_line_layout children_anchor"
    "\<not> js_includes one_line_layout ''<Navbar />''"
    "\<not> js_includes one_line_layout (importStatement example_config Navbar)"
    unfolding one_line_layout_def by code_simp+
  have e1: "newLayoutContent example_config Navbar one_line_layout = one_line_layout_navbar"
    unfolding one_line_layout_def one_line_layout_navbar_def by code_simp
  have i1: "\<not> js_includes one_line_layout_navbar (importStatement example_config ClerkProvider)"
    unfolding one_line_layout_navbar_def by code_simp
  have e2: "newLayoutContent example_config ClerkProvider one_line_layout_navbar
              = one_line_layout_navbar_clerk"
    unfolding one_line_layout_navbar_def one_line_layout_navbar_clerk_def by code_simp
  have r: "\<not> js_includes one_line_layout_navbar_clerk ''<ClerkProvider>''"
    "\<not> js_includes one_line_layout_navbar_clerk navigation_block"
    unfolding one_line_layout_navbar_clerk_def navigation_block_def by code_simp+
  have a: "apply_all example_config [Navbar, ClerkProvider] (fs_with example_config one_line_layout)
       = Inr (write_all (layout_path example_config)
               [one_line_layout_navbar, one_line_layout_navbar_clerk]
               (fs_with example_config one_line_layout))"
    using h(3) e1 i1 e2
    by (simp add: apply_then_def addContextProviderToLayout_def fs_with_def replaceFile_def)
  have g: "\<not> js_includes plain_layout (importStatement example_config Navbar)"
    unfolding plain_layout_def by code_simp
  have e3: "newLayoutContent example_config Navbar plain_layout = plain_layout_navbar"
    unfolding plain_layout_def plain_layout_navbar_def by code_simp
  have i2: "\<not> js_includes plain_layout_navbar (importStatement example_config ShadcnToast)"
    unfolding plain_layout_navbar_def by code_simp
  have e4: "newLayoutContent example_config ShadcnToast plain_layout_navbar
              = plain_layout_navbar_toast"
    unfolding plain_layout_navbar_def plain_layout_navbar_toast_def by code_simp
  have t: "js_includes plain_layout_navbar_toast
        (''<body>'' @ navigation_block @ ''\<newline><Toaster />\<newline></body>'')"
    unfolding plain_layout_navbar_toast_def navigation_block_def by code_simp
  have b: "apply_all example_config [Navbar, ShadcnToast] (fs_with example_config plain_layout)
       = Inr (write_all (layout_path example_config)
               [plain_layout_navbar, plain_layout_navbar_toast]
               (fs_with example_config plain_layout))"
    using g e3 i2 e4
    by (simp add: apply_then_def addContextProviderToLayout_def fs_with_def replaceFile_def)
  from h(1,2) a r b t show ?thesis by blast
qed

text \<open>No replacement text holds a \<open>$\<close>, so \<open>replace\<close> inserts it as it is.\<close>

lemma replacementText_no_dollar:
  "CHR ''$'' \<notin> set (replacementText p (rootChildrenText nav))"
  by (cases p; cases nav;
      simp add: rootChildrenText_def children_anchor_def navigation_block_def)

end
